theory Spec2Isabelle
  imports Complex_Main "HOL-Library.Word"
begin

section \<open>Data model\<close>

text \<open>
  A shallow embedding of \<^verbatim>\<open>src/src/index.ts\<close>: the connector class with its
  \<^verbatim>\<open>inviteUserToRoom\<close> handlers (inbound decode-and-capture, call lifecycle) and
  \<^verbatim>\<open>sendLivekitAudioStreamToCallSession\<close> (outbound accumulate, slice, encode, send).

  JavaScript numbers that hold lengths, counters and sequence numbers are \<open>nat\<close>; the
  RTP timestamp, which grows by the codec's interval, is \<open>int\<close>. A Node \<^verbatim>\<open>Buffer\<close> is
  the list of its bytes; a typed-array view keeps its backing store, offset and length,
  since the \<^verbatim>\<open>Int16Array\<close> constructor checks them.
\<close>

type_synonym byte = "8 word"
type_synonym Buffer = "byte list"

text \<open>The enum \<^verbatim>\<open>RingCentralLiveKitConnectorCallStatus\<close>.\<close>

datatype CallStatus = ANSWERED | BUSY | DISPOSED

text \<open>
  The fields of class \<^verbatim>\<open>RingCentralLiveKitConnector\<close> that the handlers read; the
  softphone object itself is an external collaborator.
\<close>

record RingCentralLiveKitConnector =
  softphoneConnected :: bool
  sampleRate :: nat
  channels :: nat
  livekitURL :: string

text \<open>A typed-array view (\<^verbatim>\<open>Uint8Array\<close>, \<^verbatim>\<open>Buffer\<close>): backing store, offset, length.\<close>

record ArrayView =
  buffer :: Buffer
  byteOffset :: nat
  byteLength :: nat

text \<open>
  \<^verbatim>\<open>RtpHeader\<close> and \<^verbatim>\<open>RtpPacket\<close> of werift-rtp, with the fields the source fills in.
  The three header fields that share their name with a local variable of the pipeline
  carry the prefix \<open>hdr_\<close>.
\<close>

record RtpHeader =
  version :: nat
  padding :: bool
  paddingSize :: nat
  extension :: bool
  marker :: bool
  payloadOffset :: nat
  payloadType :: nat
  hdr_sequenceNumber :: nat
  hdr_timestamp :: int
  hdr_ssrc :: nat
  csrcLength :: nat
  csrc :: "nat list"
  extensionProfile :: nat
  extensions :: "nat list"

datatype RtpPacket = RtpPacket (header: RtpHeader) (payload: Buffer)

text \<open>
  The call session as the pipelines use it. The codecs and the socket are stateful, so
  \<open>encode\<close>, \<open>decode\<close> and \<open>sendPacket\<close> take the arguments of the earlier calls as
  their first argument. For the codecs \<open>None\<close> is a throw; \<open>sendPacket\<close> says whether
  the call returns (\<open>False\<close>: it throws). \<open>encodeInPlace\<close> says whether the encoder
  hands back the very buffer it was given, now holding the encoded bytes, instead of a
  new one.
\<close>

record CallSession =
  disposed :: bool
  encode :: "Buffer list \<Rightarrow> Buffer \<Rightarrow> Buffer option"
  encodeInPlace :: bool
  decode :: "Buffer list \<Rightarrow> Buffer \<Rightarrow> ArrayView option"
  sendPacket :: "RtpPacket list \<Rightarrow> RtpPacket \<Rightarrow> bool"
  codec_id :: nat
  codec_timestampInterval :: int

text \<open>What the source writes to the console, one constructor per message.\<close>

datatype LogMsg =
    AudioStreamRequired
  | AlreadyEndedOrDisposed
  | CallEndedStopping
  | InvalidAudioFrame
  | BufferOverflowProtection nat
  | OpusEncodingError
  | StreamError
  | FinalGarbageCollection
  | GarbageCollectionFailed
  | ProcessingCompleted nat nat nat
  | CleanupError
  | StreamProcessingCompleted
  | FailedToCaptureFrame

section \<open>Outbound pipeline: \<^verbatim>\<open>sendLivekitAudioStreamToCallSession\<close>\<close>

text \<open>
  JavaScript numbers are binary64 values. \<open>binary64 x\<close> is the value nearest to a real
  \<open>x \<ge> 0\<close>, ties going to the even significand: \<open>ulp x\<close> is the spacing of the values
  around \<open>x\<close>, 52 binary places below its leading bit (and 2 to the power -1074 for
  the subnormal ones); the exponent is searched upwards from 1, or downwards, within the
  range the format has.
\<close>

definition roundTiesToEven :: "real \<Rightarrow> int" where
  "roundTiesToEven y =
     (let below = \<lfloor>y\<rfloor>; rest = y - of_int below
      in if rest < 1 / 2 then below
         else if rest > 1 / 2 then below + 1
         else if even below then below else below + 1)"

fun exponentFrom :: "nat \<Rightarrow> nat \<Rightarrow> real \<Rightarrow> nat" where
  "exponentFrom 0 k x = k"
| "exponentFrom (Suc fuel) k x = (if x < 2 ^ Suc k then k else exponentFrom fuel (Suc k) x)"

fun fractionFrom :: "nat \<Rightarrow> nat \<Rightarrow> real \<Rightarrow> nat" where
  "fractionFrom 0 j x = j"
| "fractionFrom (Suc fuel) j x = (if 1 \<le> x * 2 ^ j then j else fractionFrom fuel (Suc j) x)"

definition ulp :: "real \<Rightarrow> real" where
  "ulp x = (if 1 \<le> x then 2 ^ exponentFrom 1023 0 x / 2 ^ 52
            else 1 / 2 ^ (fractionFrom 1021 1 x + 52))"

definition binary64 :: "real \<Rightarrow> real" where
  "binary64 x = ulp x * of_int (roundTiesToEven (x / ulp x))"

text \<open>
  \<^verbatim>\<open>randomInt\<close> (lines 91 and 92). The argument is the value of \<^verbatim>\<open>Math.random()\<close>, a
  binary64 value in \<open>[0, 1)\<close>; the product is rounded to binary64 before
  \<^verbatim>\<open>Math.floor\<close>, and the sum with 1024 is exact.
\<close>

definition randomInt :: "real \<Rightarrow> nat" where
  "randomInt r = nat \<lfloor>binary64 (r * (65535 - 1024 + 1))\<rfloor> + 1024"

definition LIVEKIT_FRAME_SIZE :: nat where
  "LIVEKIT_FRAME_SIZE = 320"

definition REQUIRED_BYTES_TO_SEND :: nat where
  "REQUIRED_BYTES_TO_SEND = LIVEKIT_FRAME_SIZE * 2"

definition FRAME_SIZE :: nat where
  "FRAME_SIZE = REQUIRED_BYTES_TO_SEND"

definition MAX_BUFFER_FRAMES :: nat where
  "MAX_BUFFER_FRAMES = 5"

definition MAX_BUFFER_SIZE :: nat where
  "MAX_BUFFER_SIZE = FRAME_SIZE * MAX_BUFFER_FRAMES"

text \<open>
  The local variables of one invocation, together with what the invocation has done to
  its collaborators so far: \<open>encoded\<close> lists the frames handed to
  \<^verbatim>\<open>callSession.encoder.encode\<close>, \<open>sent\<close> the packets handed to
  \<^verbatim>\<open>callSession.sendPacket\<close>, \<open>delivered\<close> those of them for which \<^verbatim>\<open>sendPacket\<close>
  returned, \<open>console\<close> the log lines, each in call order.
\<close>

record Outbound =
  pcmBuffer :: Buffer
  frameBuffer :: Buffer
  tempBuffer :: "Buffer list"
  frameCount :: nat
  totalBytesProcessed :: nat
  gcCount :: nat
  timestamp :: int
  sequenceNumber :: nat
  ssrc :: nat
  encoded :: "Buffer list"
  sent :: "RtpPacket list"
  delivered :: "RtpPacket list"
  console :: "LogMsg list"

text \<open>
  \<^verbatim>\<open>source.copy(target, 0, 0, n)\<close>: as many bytes as source, target and \<open>n\<close>
  allow are written over the start of the target.
\<close>

definition Buffer_copy :: "Buffer \<Rightarrow> Buffer \<Rightarrow> nat \<Rightarrow> Buffer" where
  "Buffer_copy source target n =
     (let k = min n (min (length source) (length target))
      in take k source @ drop k target)"

text \<open>
  The state at the \<^verbatim>\<open>try\<close> (lines 120 to 130). \<^verbatim>\<open>Buffer.allocUnsafe\<close> leaves the
  content of the scratch frame open; every read of it follows a full overwrite, and
  the model fills it with zeros. \<open>now\<close> is \<^verbatim>\<open>Date.now()\<close>, \<open>r\<close> is \<^verbatim>\<open>Math.random()\<close>.
\<close>

definition initialState :: "nat \<Rightarrow> real \<Rightarrow> Outbound" where
  "initialState now r =
     \<lparr> pcmBuffer = [],
       frameBuffer = replicate FRAME_SIZE 0,
       tempBuffer = [],
       frameCount = 0,
       totalBytesProcessed = 0,
       gcCount = 0,
       timestamp = int (now div 1000),
       sequenceNumber = (now div 1000) mod 65536,
       ssrc = randomInt r,
       encoded = [],
       sent = [],
       delivered = [],
       console = [] \<rparr>"

text \<open>
  One turn of the inner \<^verbatim>\<open>while\<close> (lines 172 to 219): copy a frame out, slice it off,
  then, inside the \<^verbatim>\<open>try\<close>, encode, build the packet from the current sequence number
  and timestamp, advance both, call \<^verbatim>\<open>sendPacket\<close>, and zero the encoder's result.
  Whatever throws inside the \<^verbatim>\<open>try\<close> lands in the \<^verbatim>\<open>catch\<close>, which logs and
  continues: a throw of the encoder leaves the counters alone, a throw of
  \<^verbatim>\<open>sendPacket\<close> comes after they were advanced. The packet's payload is a copy
  (\<^verbatim>\<open>Buffer.from\<close>), so the zeroing of line 215 does not reach it; it reaches the
  scratch frame when the encoder's result is the scratch frame itself. The two
  constructors and \<^verbatim>\<open>fill\<close> return normally on the buffers the session's types give.
\<close>

definition sendFrame :: "CallSession \<Rightarrow> Outbound \<Rightarrow> Outbound" where
  "sendFrame callSession st =
     (let frame = Buffer_copy (pcmBuffer st) (frameBuffer st) FRAME_SIZE;
          st1 = st\<lparr> frameBuffer := frame,
                    pcmBuffer :=
                      (if length (pcmBuffer st) = FRAME_SIZE then []
                       else drop FRAME_SIZE (pcmBuffer st)) \<rparr>;
          st2 = st1\<lparr> encoded := encoded st1 @ [frame] \<rparr>
      in case encode callSession (encoded st1) frame of
           None \<Rightarrow> st2\<lparr> console := console st2 @ [OpusEncodingError] \<rparr>
         | Some encodedData \<Rightarrow>
             (let st3 = (if encodeInPlace callSession
                         then st2\<lparr> frameBuffer :=
                                    Buffer_copy encodedData frame (length frame) \<rparr>
                         else st2);
                  rtpPacket = RtpPacket
                    \<lparr> version = 2,
                      padding = False,
                      paddingSize = 0,
                      extension = False,
                      marker = False,
                      payloadOffset = 12,
                      payloadType = codec_id callSession,
                      hdr_sequenceNumber = sequenceNumber st3,
                      hdr_timestamp = timestamp st3,
                      hdr_ssrc = ssrc st3,
                      csrcLength = 0,
                      csrc = [],
                      extensionProfile = 48862,
                      extensions = [] \<rparr>
                    encodedData;
                  next_sequenceNumber = sequenceNumber st3 + 1;
                  st4 = st3\<lparr> sequenceNumber :=
                               (if next_sequenceNumber > 65535 then 0 else next_sequenceNumber),
                             timestamp := timestamp st3 + codec_timestampInterval callSession,
                             sent := sent st3 @ [rtpPacket] \<rparr>
              in if sendPacket callSession (sent st3) rtpPacket
                 then st4\<lparr> delivered := delivered st4 @ [rtpPacket],
                           frameBuffer :=
                             (if encodeInPlace callSession
                              then replicate (length (frameBuffer st4)) 0
                              else frameBuffer st4) \<rparr>
                 else st4\<lparr> console := console st4 @ [OpusEncodingError] \<rparr>))"

text \<open>The inner \<^verbatim>\<open>while (pcmBuffer.length >= FRAME_SIZE && !callEnded)\<close>.\<close>

function drainFrames :: "CallSession \<Rightarrow> bool \<Rightarrow> Outbound \<Rightarrow> Outbound" where
  "drainFrames callSession callEnded st =
     (if length (pcmBuffer st) \<ge> FRAME_SIZE \<and> \<not> callEnded
      then drainFrames callSession callEnded (sendFrame callSession st)
      else st)"
  by pat_completeness auto
termination
  by (relation "measure (\<lambda>(callSession, callEnded, st). length (pcmBuffer st))")
     (auto simp: sendFrame_def Let_def FRAME_SIZE_def REQUIRED_BYTES_TO_SEND_def
        LIVEKIT_FRAME_SIZE_def split: option.splits)

declare drainFrames.simps [simp del]

text \<open>
  The body of the \<^verbatim>\<open>for await\<close> for a frame that passed validation, up to the
  inner loop (lines 146 to 169): count, overflow guard, push on the pending list, merge
  when the pending list has more than 3 entries or a full frame is there.
\<close>

definition accumulate :: "Buffer \<Rightarrow> Outbound \<Rightarrow> Outbound" where
  "accumulate chunk st =
     (let chunkSize = length chunk;
          st1 = st\<lparr> frameCount := frameCount st + 1,
                    totalBytesProcessed := totalBytesProcessed st + chunkSize \<rparr>;
          st2 = (if length (pcmBuffer st1) + chunkSize > MAX_BUFFER_SIZE
                 then st1\<lparr> console :=
                             console st1 @ [BufferOverflowProtection (length (pcmBuffer st1))],
                           pcmBuffer := [],
                           tempBuffer := [] \<rparr>
                 else st1);
          st3 = st2\<lparr> tempBuffer := tempBuffer st2 @ [chunk] \<rparr>
      in if length (tempBuffer st3) > 3
            \<or> foldl (\<lambda>sum buf. sum + length buf) (length (pcmBuffer st3))
                 (tempBuffer st3) \<ge> FRAME_SIZE
         then st3\<lparr> pcmBuffer := concat (pcmBuffer st3 # tempBuffer st3),
                   tempBuffer := [] \<rparr>
         else st3)"

text \<open>The whole body for a valid frame (lines 146 to 220): accumulate, then drain.\<close>

definition onAudioFrame :: "CallSession \<Rightarrow> bool \<Rightarrow> Buffer \<Rightarrow> Outbound \<Rightarrow> Outbound" where
  "onAudioFrame callSession callEnded chunk st =
     drainFrames callSession callEnded (accumulate chunk st)"

text \<open>
  What the asynchronous iterator yields: a frame, whose \<^verbatim>\<open>data.buffer\<close> may be missing
  (\<open>None\<close>) or else gives the chunk's bytes, or a failure of the iteration itself.
\<close>

datatype StreamItem = Frame "Buffer option" | StreamFailure

text \<open>
  One turn of the \<^verbatim>\<open>for await\<close>: the flag says whether the loop goes on. The
  \<^verbatim>\<open>callEnded\<close> read here is the function's own parameter, a boolean passed by value.
\<close>

fun forAwaitBody :: "CallSession \<Rightarrow> bool \<Rightarrow> StreamItem \<Rightarrow> Outbound \<Rightarrow> bool \<times> Outbound" where
  "forAwaitBody callSession callEnded StreamFailure st =
     (False, st\<lparr> console := console st @ [StreamError] \<rparr>)"
| "forAwaitBody callSession callEnded (Frame audioFrame) st =
     (if callEnded then (False, st\<lparr> console := console st @ [CallEndedStopping] \<rparr>)
      else case audioFrame of
             None \<Rightarrow> (True, st\<lparr> console := console st @ [InvalidAudioFrame] \<rparr>)
           | Some chunk \<Rightarrow> (True, onAudioFrame callSession callEnded chunk st))"

fun forAwait :: "CallSession \<Rightarrow> bool \<Rightarrow> StreamItem list \<Rightarrow> Outbound \<Rightarrow> Outbound" where
  "forAwait callSession callEnded [] st = st"
| "forAwait callSession callEnded (item # rest) st =
     (case forAwaitBody callSession callEnded item st of
        (True, st') \<Rightarrow> forAwait callSession callEnded rest st'
      | (False, st') \<Rightarrow> st')"

text \<open>
  The \<^verbatim>\<open>finally\<close> block: the buffers are zeroed and dropped, the collector is called
  when the runtime exposes one (\<open>gc\<close>: \<open>None\<close> when absent, otherwise whether the call
  returns), and the summary is logged.
\<close>

definition cleanup :: "bool option \<Rightarrow> Outbound \<Rightarrow> Outbound" where
  "cleanup gc st =
     (let st1 = st\<lparr> pcmBuffer := [], frameBuffer := [], tempBuffer := [] \<rparr>;
          st2 = (case gc of
                   None \<Rightarrow> st1
                 | Some True \<Rightarrow> st1\<lparr> console := console st1 @ [FinalGarbageCollection] \<rparr>
                 | Some False \<Rightarrow> st1\<lparr> console := console st1 @ [GarbageCollectionFailed] \<rparr>)
      in st2\<lparr> console := console st2 @
                 [ProcessingCompleted (frameCount st2)
                    (nat \<lfloor>(real (totalBytesProcessed st2) / 1024) + 1 / 2\<rfloor>) (gcCount st2),
                  StreamProcessingCompleted] \<rparr>)"

text \<open>
  An invocation that returns at one of the two guards (lines 103 to 111) has run none of
  the initialisation: nothing is encoded or sent, and one line is logged.
\<close>

definition returnedEarly :: "LogMsg \<Rightarrow> Outbound" where
  "returnedEarly msg =
     \<lparr> pcmBuffer = [],
       frameBuffer = [],
       tempBuffer = [],
       frameCount = 0,
       totalBytesProcessed = 0,
       gcCount = 0,
       timestamp = 0,
       sequenceNumber = 0,
       ssrc = 0,
       encoded = [],
       sent = [],
       delivered = [],
       console = [msg] \<rparr>"

text \<open>
  The function itself, on a stream that ends (or fails) after finitely many items.
  \<open>audioStream\<close> is \<open>None\<close> for a missing stream.
\<close>

definition sendLivekitAudioStreamToCallSession ::
  "StreamItem list option \<Rightarrow> CallSession \<Rightarrow> bool \<Rightarrow> nat \<Rightarrow> real \<Rightarrow> bool option \<Rightarrow> Outbound" where
  "sendLivekitAudioStreamToCallSession audioStream callSession callEnded now r gc =
     (case audioStream of
        None \<Rightarrow> returnedEarly AudioStreamRequired
      | Some items \<Rightarrow>
          if disposed callSession then returnedEarly AlreadyEndedOrDisposed
          else cleanup gc (forAwait callSession callEnded items (initialState now r)))"

section \<open>Inbound path: the \<^verbatim>\<open>audioPacket\<close> handler\<close>

text \<open>The constructor's field initialisers (lines 16 to 18 and 20).\<close>

definition newConnector :: "string \<Rightarrow> RingCentralLiveKitConnector" where
  "newConnector url =
     \<lparr> softphoneConnected = False, sampleRate = 16000, channels = 1, livekitURL = url \<rparr>"

datatype JsError = RangeError | DecoderThrew | CaptureThrew

text \<open>
  \<^verbatim>\<open>new Uint8Array(buffer, byteOffset, length)\<close>: a view of \<open>length\<close> bytes; a
  \<^verbatim>\<open>RangeError\<close> when it would reach past the backing store.
\<close>

definition Uint8Array_new :: "Buffer \<Rightarrow> nat \<Rightarrow> nat \<Rightarrow> JsError + Buffer" where
  "Uint8Array_new buf off len =
     (if off + len > length buf then Inl RangeError
      else Inr (take len (drop off buf)))"

text \<open>The 16-bit elements of a byte sequence, low byte first.\<close>

fun int16_elements :: "Buffer \<Rightarrow> 16 word list" where
  "int16_elements (lo # hi # rest) =
     (ucast lo + push_bit 8 (ucast hi)) # int16_elements rest"
| "int16_elements _ = []"

text \<open>
  \<^verbatim>\<open>new Int16Array(buffer, byteOffset, length)\<close> as ECMAScript defines it: a
  \<^verbatim>\<open>RangeError\<close> when the offset is not a multiple of the element size 2, or when
  \<open>length\<close> elements from the offset reach past the backing store. The length argument
  goes through \<^verbatim>\<open>ToIndex\<close>, which drops the fraction of a number: the caller below
  passes \<^verbatim>\<open>byteLength / 2\<close>, so \<open>len\<close> here is \<open>byteLength div 2\<close>.
\<close>

definition Int16Array_new :: "Buffer \<Rightarrow> nat \<Rightarrow> nat \<Rightarrow> JsError + 16 word list" where
  "Int16Array_new buf off len =
     (if off mod 2 \<noteq> 0 then Inl RangeError
      else if off + len * 2 > length buf then Inl RangeError
      else Inr (int16_elements (take (len * 2) (drop off buf))))"

text \<open>\<^verbatim>\<open>new AudioFrame(data, sampleRate, channels, samplesPerChannel)\<close> of the room SDK.\<close>

datatype AudioFrame =
  AudioFrame (data: "16 word list") (frame_sampleRate: nat) (frame_channels: nat)
    (samplesPerChannel: nat)

text \<open>
  The call \<^verbatim>\<open>source.captureFrame(frame)\<close> of line 65 is not awaited. What it throws
  before it returns reaches the \<^verbatim>\<open>catch\<close>; a failure of the promise it returns does
  not. The room SDK's \<^verbatim>\<open>captureFrame\<close> is an asynchronous method, so its failures are
  of the second kind.
\<close>

datatype CaptureOutcome = Captured | Rejected | Threw

text \<open>
  What the handler has done so far: \<open>decoderInputs\<close> are the payloads handed to
  \<^verbatim>\<open>callSession.decoder.decode\<close>, \<open>offered\<close> the frames handed to
  \<^verbatim>\<open>source.captureFrame\<close>, \<open>captured\<close> those of them the source took,
  \<open>unhandledRejections\<close> those whose promise failed with nobody listening, \<open>errors\<close>
  the lines written by the \<^verbatim>\<open>catch\<close>.
\<close>

record Inbound =
  decoderInputs :: "Buffer list"
  offered :: "AudioFrame list"
  captured :: "AudioFrame list"
  unhandledRejections :: "AudioFrame list"
  errors :: "LogMsg list"

text \<open>
  The \<^verbatim>\<open>try\<close> block (lines 61 to 65) up to the frame: view the payload, decode, view
  the PCM as 16-bit samples, build the frame.
\<close>

definition decodeToFrame ::
  "RingCentralLiveKitConnector \<Rightarrow> CallSession \<Rightarrow> Buffer list \<Rightarrow> Buffer \<Rightarrow> JsError + AudioFrame" where
  "decodeToFrame this callSession history encodedBytes =
     (case decode callSession history encodedBytes of
        None \<Rightarrow> Inl DecoderThrew
      | Some pcm \<Rightarrow>
          (case Int16Array_new (buffer pcm) (byteOffset pcm) (byteLength pcm div 2) of
             Inl e \<Rightarrow> Inl e
           | Inr pcmSamples \<Rightarrow>
               Inr (AudioFrame pcmSamples (sampleRate this) (channels this)
                      (length pcmSamples))))"

text \<open>
  The handler (lines 59 to 69). The audio source has a state of its own, so
  \<open>captureFrame\<close> takes the frames offered before as its first argument. Whatever is
  thrown inside the \<^verbatim>\<open>try\<close> ends in the \<^verbatim>\<open>catch\<close>, which logs one line; a rejected
  promise passes the handler by.
\<close>

definition onAudioPacket ::
  "RingCentralLiveKitConnector \<Rightarrow> CallSession \<Rightarrow> (AudioFrame list \<Rightarrow> AudioFrame \<Rightarrow> CaptureOutcome)
     \<Rightarrow> ArrayView \<Rightarrow> Inbound \<Rightarrow> Inbound" where
  "onAudioPacket this callSession captureFrame rtpPayload st =
     (case Uint8Array_new (buffer rtpPayload) (byteOffset rtpPayload) (byteLength rtpPayload) of
        Inl e \<Rightarrow> st\<lparr> errors := errors st @ [FailedToCaptureFrame] \<rparr>
      | Inr encodedBytes \<Rightarrow>
          (let st1 = st\<lparr> decoderInputs := decoderInputs st @ [encodedBytes] \<rparr>
           in case decodeToFrame this callSession (decoderInputs st) encodedBytes of
                Inl e \<Rightarrow> st1\<lparr> errors := errors st1 @ [FailedToCaptureFrame] \<rparr>
              | Inr frame \<Rightarrow>
                  (let st2 = st1\<lparr> offered := offered st1 @ [frame] \<rparr>
                   in case captureFrame (offered st1) frame of
                        Captured \<Rightarrow> st2\<lparr> captured := captured st2 @ [frame] \<rparr>
                      | Rejected \<Rightarrow>
                          st2\<lparr> unhandledRejections := unhandledRejections st2 @ [frame] \<rparr>
                      | Threw \<Rightarrow> st2\<lparr> errors := errors st2 @ [FailedToCaptureFrame] \<rparr>)))"

text \<open>The handler stays registered (\<^verbatim>\<open>on\<close>, not \<^verbatim>\<open>once\<close>): it runs for every packet.\<close>

fun onAudioPackets ::
  "RingCentralLiveKitConnector \<Rightarrow> CallSession \<Rightarrow> (AudioFrame list \<Rightarrow> AudioFrame \<Rightarrow> CaptureOutcome)
     \<Rightarrow> ArrayView list \<Rightarrow> Inbound \<Rightarrow> Inbound" where
  "onAudioPackets this callSession captureFrame [] st = st"
| "onAudioPackets this callSession captureFrame (p # ps) st =
     onAudioPackets this callSession captureFrame ps
       (onAudioPacket this callSession captureFrame p st)"

section \<open>The scope of \<^verbatim>\<open>inviteUserToRoom\<close>: lifecycle handlers and subscriptions\<close>

datatype TrackKind = KIND_UNKNOWN | KIND_AUDIO | KIND_VIDEO

text \<open>
  The condition of the \<^verbatim>\<open>trackSubscribed\<close> handler (lines 72 to 78); an empty
  identity option is falsy and filters nothing.
\<close>

definition forwardsTrack :: "string option \<Rightarrow> TrackKind \<Rightarrow> string \<Rightarrow> bool" where
  "forwardsTrack listeningParticipantIdentity kind identity =
     (kind = KIND_AUDIO \<and>
      (case listeningParticipantIdentity of
         None \<Rightarrow> True
       | Some wanted \<Rightarrow> if wanted \<noteq> [] then identity = wanted else True))"

text \<open>
  A pipeline started by a subscription: the value its \<^verbatim>\<open>callEnded\<close> parameter
  received, whether its \<^verbatim>\<open>for await\<close> is still running, and its state.
\<close>

datatype Pipeline =
  Pipeline (param_callEnded: bool) (running: bool) (pipelineState: Outbound)

text \<open>
  The variables the handlers close over: \<open>callEnded\<close> (line 44), the \<^verbatim>\<open>once\<close>
  listeners that have not fired yet, the statuses reported to
  \<^verbatim>\<open>onCallStatusChange\<close>, the call session, and the pipelines started so far.
\<close>

record Invite =
  callEnded :: bool
  onceListeners :: "CallStatus list"
  statusChanges :: "CallStatus list"
  callSession :: CallSession
  pipelines :: "Pipeline list"

definition inviteUserToRoom :: "CallSession \<Rightarrow> Invite" where
  "inviteUserToRoom session =
     \<lparr> callEnded = False,
       onceListeners = [ANSWERED, BUSY, DISPOSED],
       statusChanges = [],
       callSession = session,
       pipelines = [] \<rparr>"

text \<open>
  What reaches the scope afterwards, in arrival order; execution is single-threaded, so
  events interleave only at the pipeline's \<^verbatim>\<open>await\<close> for the next frame. A subscription
  carries the clock and the random number its pipeline will read; room audio names the
  pipeline (by its start order) whose stream yields the item.
\<close>

datatype Event =
    CallEvent CallStatus
  | TrackSubscribed TrackKind string nat real
  | RoomAudio nat StreamItem

text \<open>
  The lifecycle listeners (lines 45 to 57): each fires once, reports its status, and
  the busy and disposed ones set \<open>callEnded\<close>. The session sets its own
  \<^verbatim>\<open>disposed\<close> flag when it emits \<^verbatim>\<open>disposed\<close>.
\<close>

definition onCallEvent :: "CallStatus \<Rightarrow> Invite \<Rightarrow> Invite" where
  "onCallEvent status scope =
     (let scope1 = (if status = DISPOSED
                  then scope\<lparr> callSession := (callSession scope)\<lparr> disposed := True \<rparr> \<rparr>
                  else scope)
      in if status \<in> set (onceListeners scope1)
         then scope1\<lparr> onceListeners := removeAll status (onceListeners scope1),
                    statusChanges := statusChanges scope1 @ [status],
                    callEnded := (if status = ANSWERED then callEnded scope1 else True) \<rparr>
         else scope1)"

text \<open>
  The \<^verbatim>\<open>trackSubscribed\<close> handler (lines 71 to 83): line 81 passes the current value
  of \<open>callEnded\<close> into the new pipeline, which checks the session's \<^verbatim>\<open>disposed\<close>
  flag once and then waits for frames.
\<close>

definition onTrackSubscribed ::
  "string option \<Rightarrow> TrackKind \<Rightarrow> string \<Rightarrow> nat \<Rightarrow> real \<Rightarrow> Invite \<Rightarrow> Invite" where
  "onTrackSubscribed listeningParticipantIdentity kind identity now r scope =
     (if forwardsTrack listeningParticipantIdentity kind identity
      then scope\<lparr> pipelines := pipelines scope @
             [if disposed (callSession scope)
              then Pipeline (callEnded scope) False (returnedEarly AlreadyEndedOrDisposed)
              else Pipeline (callEnded scope) True (initialState now r)] \<rparr>
      else scope)"

text \<open>
  A running pipeline takes the next item of its stream through one turn of its
  \<^verbatim>\<open>for await\<close>, with the \<^verbatim>\<open>callEnded\<close> it was started with; when the loop stops,
  the \<^verbatim>\<open>finally\<close> block runs.
\<close>

definition onRoomAudio :: "bool option \<Rightarrow> nat \<Rightarrow> StreamItem \<Rightarrow> Invite \<Rightarrow> Invite" where
  "onRoomAudio gc k item scope =
     (if k < length (pipelines scope)
      then (case pipelines scope ! k of
              Pipeline ended True st \<Rightarrow>
                (case forAwaitBody (callSession scope) ended item st of
                   (True, st') \<Rightarrow>
                     scope\<lparr> pipelines := (pipelines scope)[k := Pipeline ended True st'] \<rparr>
                 | (False, st') \<Rightarrow>
                     scope\<lparr> pipelines :=
                            (pipelines scope)[k := Pipeline ended False (cleanup gc st')] \<rparr>)
            | Pipeline ended False st \<Rightarrow> scope)
      else scope)"

fun handleEvent :: "string option \<Rightarrow> bool option \<Rightarrow> Event \<Rightarrow> Invite \<Rightarrow> Invite" where
  "handleEvent listening gc (CallEvent status) scope = onCallEvent status scope"
| "handleEvent listening gc (TrackSubscribed kind identity now r) scope =
     onTrackSubscribed listening kind identity now r scope"
| "handleEvent listening gc (RoomAudio k item) scope = onRoomAudio gc k item scope"

fun handleEvents :: "string option \<Rightarrow> bool option \<Rightarrow> Event list \<Rightarrow> Invite \<Rightarrow> Invite" where
  "handleEvents listening gc [] scope = scope"
| "handleEvents listening gc (e # es) scope =
     handleEvents listening gc es (handleEvent listening gc e scope)"

section \<open>Invariants of the outbound state\<close>

text \<open>
  The invariant behind the numbering of packets: the packets sent so far carry the
  sequence numbers \<open>s0, s0 + 1, \<dots>\<close> modulo 65536 and the timestamps
  \<open>t0, t0 + step, \<dots>\<close>, and the two counters hold the values the next packet will get.
\<close>

definition wellNumbered :: "nat \<Rightarrow> int \<Rightarrow> int \<Rightarrow> Outbound \<Rightarrow> bool" where
  "wellNumbered s0 t0 step st =
     ((\<forall>i < length (sent st).
         hdr_sequenceNumber (header (sent st ! i)) = (s0 + i) mod 65536 \<and>
         hdr_timestamp (header (sent st ! i)) = t0 + int i * step)
      \<and> sequenceNumber st = (s0 + length (sent st)) mod 65536
      \<and> timestamp st = t0 + int (length (sent st)) * step)"

text \<open>
  The invariant behind the packet headers: the stream's \<open>ssrc\<close> has the value \<open>v\<close>, and
  every packet sent so far carries it, with version 2, padding and extension unset and
  the codec's payload type.
\<close>

definition stamped :: "CallSession \<Rightarrow> nat \<Rightarrow> Outbound \<Rightarrow> bool" where
  "stamped cs v st =
     (ssrc st = v \<and>
      list_all (\<lambda>p. hdr_ssrc (header p) = v \<and> version (header p) = 2
                   \<and> \<not> padding (header p) \<and> \<not> extension (header p)
                   \<and> payloadType (header p) = codec_id cs) (sent st))"

section \<open>An example session\<close>

text \<open>
  A call session to run the pipelines on: its encoder returns the first two bytes of a
  frame in a new buffer and throws on the third frame it is given; its decoder doubles a
  non-empty payload and throws on an empty one; its \<^verbatim>\<open>sendPacket\<close> returns.
\<close>

definition exampleSession :: CallSession where
  "exampleSession =
     \<lparr> disposed = False,
       encode = (\<lambda>history frame. if length history = 2 then None else Some (take 2 frame)),
       encodeInPlace = False,
       decode = (\<lambda>history bytes.
                   if bytes = [] then None
                   else Some \<lparr> buffer = bytes @ bytes, byteOffset = 0,
                               byteLength = 2 * length bytes \<rparr>),
       sendPacket = (\<lambda>history packet. True),
       codec_id = 109,
       codec_timestampInterval = 320 \<rparr>"

section \<open>Facts about the outbound loops\<close>

lemma FRAME_SIZE_eq: "FRAME_SIZE = 640"
  by (simp add: FRAME_SIZE_def REQUIRED_BYTES_TO_SEND_def LIVEKIT_FRAME_SIZE_def)

lemma Buffer_copy_length: "length (Buffer_copy src tgt n) = length tgt"
  by (simp add: Buffer_copy_def Let_def)

lemma Buffer_copy_full:
  "length tgt = n \<Longrightarrow> n \<le> length src \<Longrightarrow> Buffer_copy src tgt n = take n src"
  by (simp add: Buffer_copy_def Let_def)

lemma sendFrame_pcmBuffer: "pcmBuffer (sendFrame cs st) = drop FRAME_SIZE (pcmBuffer st)"
  by (simp add: sendFrame_def Let_def split: option.splits)

lemma sendFrame_tempBuffer: "tempBuffer (sendFrame cs st) = tempBuffer st"
  by (simp add: sendFrame_def Let_def split: option.splits)

lemma sendFrame_frameBuffer_length: "length (frameBuffer (sendFrame cs st)) = length (frameBuffer st)"
  by (simp add: sendFrame_def Let_def Buffer_copy_length split: option.splits)

lemma sendFrame_encoded:
  "encoded (sendFrame cs st) = encoded st @ [Buffer_copy (pcmBuffer st) (frameBuffer st) FRAME_SIZE]"
  by (simp add: sendFrame_def Let_def split: option.splits)

lemma sendFrame_counters:
  "frameCount (sendFrame cs st) = frameCount st"
  "totalBytesProcessed (sendFrame cs st) = totalBytesProcessed st"
  "ssrc (sendFrame cs st) = ssrc st"
  by (simp_all add: sendFrame_def Let_def split: option.splits)

lemma sendFrame_console:
  "set (console st) \<subseteq> set (console (sendFrame cs st)) \<and>
   set (console (sendFrame cs st)) \<subseteq> set (console st) \<union> {OpusEncodingError}"
  by (auto simp: sendFrame_def Let_def split: option.splits)

lemma foldl_add_length:
  "foldl (\<lambda>sum buf. sum + length buf) n xs = n + length (concat xs)"
  by (induction xs arbitrary: n) simp_all

lemma drainFrames_step:
  "length (pcmBuffer st) \<ge> FRAME_SIZE \<Longrightarrow> \<not> ce \<Longrightarrow>
   drainFrames cs ce st = drainFrames cs ce (sendFrame cs st)"
  by (subst drainFrames.simps) simp

lemma drainFrames_stop:
  "\<not> (length (pcmBuffer st) \<ge> FRAME_SIZE \<and> \<not> ce) \<Longrightarrow> drainFrames cs ce st = st"
  by (subst drainFrames.simps) auto

lemma drainFrames_tempBuffer: "tempBuffer (drainFrames cs ce st) = tempBuffer st"
proof (induction cs ce st rule: drainFrames.induct)
  case (1 cs ce st)
  show ?case
  proof (cases "length (pcmBuffer st) \<ge> FRAME_SIZE \<and> \<not> ce")
    case True
    then show ?thesis using 1 by (simp add: drainFrames_step sendFrame_tempBuffer)
  next
    case False
    then show ?thesis by (simp add: drainFrames_stop)
  qed
qed

lemma drainFrames_frameBuffer_length:
  "length (frameBuffer (drainFrames cs ce st)) = length (frameBuffer st)"
proof (induction cs ce st rule: drainFrames.induct)
  case (1 cs ce st)
  show ?case
  proof (cases "length (pcmBuffer st) \<ge> FRAME_SIZE \<and> \<not> ce")
    case True
    then show ?thesis using 1 by (simp add: drainFrames_step sendFrame_frameBuffer_length)
  next
    case False
    then show ?thesis by (simp add: drainFrames_stop)
  qed
qed

lemma drainFrames_counters:
  "frameCount (drainFrames cs ce st) = frameCount st \<and>
   totalBytesProcessed (drainFrames cs ce st) = totalBytesProcessed st \<and>
   ssrc (drainFrames cs ce st) = ssrc st"
proof (induction cs ce st rule: drainFrames.induct)
  case (1 cs ce st)
  show ?case
  proof (cases "length (pcmBuffer st) \<ge> FRAME_SIZE \<and> \<not> ce")
    case True
    then show ?thesis using 1 by (simp add: drainFrames_step sendFrame_counters)
  next
    case False
    then show ?thesis by (simp add: drainFrames_stop)
  qed
qed

lemma drainFrames_remainder:
  "\<not> ce \<Longrightarrow> length (pcmBuffer (drainFrames cs ce st)) < FRAME_SIZE"
proof (induction cs ce st rule: drainFrames.induct)
  case (1 cs ce st)
  show ?case
  proof (cases "length (pcmBuffer st) \<ge> FRAME_SIZE \<and> \<not> ce")
    case True
    then show ?thesis using 1 by (simp add: drainFrames_step)
  next
    case False
    then show ?thesis using 1 by (simp add: drainFrames_stop)
  qed
qed

lemma drainFrames_idle:
  "length (pcmBuffer st) < FRAME_SIZE \<Longrightarrow> drainFrames cs ce st = st"
  by (simp add: drainFrames_stop)

lemma drainFrames_bytes:
  "length (frameBuffer st) = FRAME_SIZE \<Longrightarrow>
   concat (encoded (drainFrames cs ce st)) @ pcmBuffer (drainFrames cs ce st) =
   concat (encoded st) @ pcmBuffer st"
proof (induction cs ce st rule: drainFrames.induct)
  case (1 cs ce st)
  show ?case
  proof (cases "length (pcmBuffer st) \<ge> FRAME_SIZE \<and> \<not> ce")
    case True
    then have "concat (encoded (drainFrames cs ce st)) @ pcmBuffer (drainFrames cs ce st)
        = concat (encoded (sendFrame cs st)) @ pcmBuffer (sendFrame cs st)"
      using 1 by (simp add: drainFrames_step sendFrame_frameBuffer_length)
    also have "\<dots> = concat (encoded st) @ pcmBuffer st"
      using True 1(2) by (simp add: sendFrame_encoded sendFrame_pcmBuffer Buffer_copy_full)
    finally show ?thesis .
  next
    case False
    then show ?thesis by (simp add: drainFrames_stop)
  qed
qed

lemma drainFrames_frame_lengths:
  "length (frameBuffer st) = FRAME_SIZE \<Longrightarrow>
   list_all (\<lambda>f. length f = FRAME_SIZE) (encoded st) \<Longrightarrow>
   list_all (\<lambda>f. length f = FRAME_SIZE) (encoded (drainFrames cs ce st))"
proof (induction cs ce st rule: drainFrames.induct)
  case (1 cs ce st)
  show ?case
  proof (cases "length (pcmBuffer st) \<ge> FRAME_SIZE \<and> \<not> ce")
    case True
    have "list_all (\<lambda>f. length f = FRAME_SIZE) (encoded (sendFrame cs st))"
      using 1(2,3) by (simp add: sendFrame_encoded Buffer_copy_length)
    then show ?thesis using True 1 by (simp add: drainFrames_step sendFrame_frameBuffer_length)
  next
    case False
    then show ?thesis using 1 by (simp add: drainFrames_stop)
  qed
qed

lemma drainFrames_shrinks:
  "length (pcmBuffer (drainFrames cs ce st))
     + FRAME_SIZE * (length (encoded (drainFrames cs ce st)) - length (encoded st))
   = length (pcmBuffer st) \<and> length (encoded st) \<le> length (encoded (drainFrames cs ce st))"
proof (induction cs ce st rule: drainFrames.induct)
  case (1 cs ce st)
  show ?case
  proof (cases "length (pcmBuffer st) \<ge> FRAME_SIZE \<and> \<not> ce")
    case True
    let ?s = "sendFrame cs st"
    let ?d = "drainFrames cs ce ?s"
    have eq: "drainFrames cs ce st = ?d" using True by (simp add: drainFrames_step)
    have ih: "length (pcmBuffer ?d) + FRAME_SIZE * (length (encoded ?d) - length (encoded ?s))
        = length (pcmBuffer ?s)" and le: "length (encoded ?s) \<le> length (encoded ?d)"
      using 1 True by simp_all
    have s1: "length (encoded ?s) = Suc (length (encoded st))" by (simp add: sendFrame_encoded)
    have s2: "length (pcmBuffer ?s) + FRAME_SIZE = length (pcmBuffer st)"
      using True by (simp add: sendFrame_pcmBuffer)
    have "length (encoded ?d) - length (encoded st) = Suc (length (encoded ?d) - length (encoded ?s))"
      using le s1 by simp
    then show ?thesis using ih le s1 s2 unfolding eq by simp
  next
    case False
    then show ?thesis by (simp add: drainFrames_stop)
  qed
qed

lemma drainFrames_console:
  "set (console st) \<subseteq> set (console (drainFrames cs ce st)) \<and>
   set (console (drainFrames cs ce st)) \<subseteq> set (console st) \<union> {OpusEncodingError}"
proof (induction cs ce st rule: drainFrames.induct)
  case (1 cs ce st)
  show ?case
  proof (cases "length (pcmBuffer st) \<ge> FRAME_SIZE \<and> \<not> ce")
    case True
    have "set (console st) \<subseteq> set (console (sendFrame cs st))"
      "set (console (sendFrame cs st)) \<subseteq> set (console st) \<union> {OpusEncodingError}"
      using sendFrame_console [of st cs] by simp_all
    then show ?thesis using True 1 by (auto simp: drainFrames_step)
  next
    case False
    then have "drainFrames cs ce st = st" by (rule drainFrames_stop)
    then show ?thesis by auto
  qed
qed

lemma MAX_BUFFER_SIZE_eq: "MAX_BUFFER_SIZE = 3200"
  by (simp add: MAX_BUFFER_SIZE_def MAX_BUFFER_FRAMES_def FRAME_SIZE_eq)

lemma accumulate_untouched:
  "encoded (accumulate chunk st) = encoded st"
  "sent (accumulate chunk st) = sent st"
  "frameBuffer (accumulate chunk st) = frameBuffer st"
  "sequenceNumber (accumulate chunk st) = sequenceNumber st"
  "timestamp (accumulate chunk st) = timestamp st"
  "ssrc (accumulate chunk st) = ssrc st"
  by (simp_all add: accumulate_def Let_def)

lemma accumulate_counters:
  "frameCount (accumulate chunk st) = frameCount st + 1"
  "totalBytesProcessed (accumulate chunk st) = totalBytesProcessed st + length chunk"
  by (simp_all add: accumulate_def Let_def)

lemma accumulate_no_trip:
  assumes "length (pcmBuffer st) + length chunk \<le> MAX_BUFFER_SIZE"
  shows "pcmBuffer (accumulate chunk st) @ concat (tempBuffer (accumulate chunk st))
           = pcmBuffer st @ concat (tempBuffer st) @ chunk"
    and "console (accumulate chunk st) = console st"
  using assms by (simp_all add: accumulate_def Let_def)

lemma accumulate_trip:
  assumes "length (pcmBuffer st) + length chunk > MAX_BUFFER_SIZE"
  shows "pcmBuffer (accumulate chunk st) @ concat (tempBuffer (accumulate chunk st)) = chunk"
    and "console (accumulate chunk st)
           = console st @ [BufferOverflowProtection (length (pcmBuffer st))]"
  using assms by (simp_all add: accumulate_def Let_def)

lemma accumulate_pending:
  "tempBuffer (accumulate chunk st) = [] \<or>
   length (pcmBuffer (accumulate chunk st)) + length (concat (tempBuffer (accumulate chunk st)))
     < FRAME_SIZE"
  by (simp add: accumulate_def Let_def foldl_add_length)

lemma onAudioFrame_pending:
  "length (pcmBuffer (onAudioFrame cs False chunk st))
     + length (concat (tempBuffer (onAudioFrame cs False chunk st))) < FRAME_SIZE"
proof -
  let ?a = "accumulate chunk st"
  from accumulate_pending [of chunk st] show ?thesis
  proof
    assume "tempBuffer ?a = []"
    then show ?thesis
      using drainFrames_remainder [of False cs ?a]
      by (simp add: onAudioFrame_def drainFrames_tempBuffer)
  next
    assume less: "length (pcmBuffer ?a) + length (concat (tempBuffer ?a)) < FRAME_SIZE"
    then have "drainFrames cs False ?a = ?a" by (simp add: drainFrames_stop)
    then show ?thesis using less by (simp add: onAudioFrame_def)
  qed
qed

lemma onAudioFrame_bytes:
  assumes "length (frameBuffer st) = FRAME_SIZE"
    and "length (pcmBuffer st) + length chunk \<le> MAX_BUFFER_SIZE"
  shows "concat (encoded (onAudioFrame cs ce chunk st)) @ pcmBuffer (onAudioFrame cs ce chunk st)
           @ concat (tempBuffer (onAudioFrame cs ce chunk st))
         = concat (encoded st) @ pcmBuffer st @ concat (tempBuffer st) @ chunk"
proof -
  let ?a = "accumulate chunk st"
  let ?d = "drainFrames cs ce ?a"
  have "concat (encoded ?d) @ pcmBuffer ?d @ concat (tempBuffer ?d)
      = (concat (encoded ?d) @ pcmBuffer ?d) @ concat (tempBuffer ?a)"
    by (simp add: drainFrames_tempBuffer)
  also have "\<dots> = (concat (encoded ?a) @ pcmBuffer ?a) @ concat (tempBuffer ?a)"
    using assms(1) by (simp only: drainFrames_bytes accumulate_untouched)
  also have "\<dots> = concat (encoded st) @ (pcmBuffer ?a @ concat (tempBuffer ?a))"
    by (simp add: accumulate_untouched)
  also have "\<dots> = concat (encoded st) @ pcmBuffer st @ concat (tempBuffer st) @ chunk"
    using assms(2) by (simp only: accumulate_no_trip)
  finally show ?thesis by (simp add: onAudioFrame_def)
qed

lemma onAudioFrame_frames:
  assumes "length (frameBuffer st) = FRAME_SIZE"
    and "list_all (\<lambda>f. length f = FRAME_SIZE) (encoded st)"
  shows "length (frameBuffer (onAudioFrame cs ce chunk st)) = FRAME_SIZE"
    and "list_all (\<lambda>f. length f = FRAME_SIZE) (encoded (onAudioFrame cs ce chunk st))"
  using assms
  by (simp_all add: onAudioFrame_def drainFrames_frameBuffer_length drainFrames_frame_lengths
      accumulate_untouched)

lemma onAudioFrame_console:
  "set (console st) \<subseteq> set (console (onAudioFrame cs ce chunk st))"
  using drainFrames_console [of "accumulate chunk st" cs ce]
  by (auto simp: onAudioFrame_def accumulate_def Let_def)

lemma onAudioFrame_trip_logged:
  assumes "length (pcmBuffer st) + length chunk > MAX_BUFFER_SIZE"
  shows "BufferOverflowProtection (length (pcmBuffer st))
           \<in> set (console (onAudioFrame cs ce chunk st))"
  using drainFrames_console [of "accumulate chunk st" cs ce] accumulate_trip(2) [OF assms]
  by (auto simp: onAudioFrame_def)

lemma forAwaitBody_console:
  "set (console st) \<subseteq> set (console (snd (forAwaitBody cs ce item st)))"
proof (cases item)
  case StreamFailure
  then show ?thesis by auto
next
  case (Frame audioFrame)
  show ?thesis
  proof (cases audioFrame)
    case None
    then show ?thesis using Frame by auto
  next
    case (Some chunk)
    then show ?thesis
      using Frame onAudioFrame_console [of st cs ce chunk] by auto
  qed
qed

lemma forAwait_console:
  "set (console st) \<subseteq> set (console (forAwait cs ce items st))"
proof (induction items arbitrary: st)
  case Nil
  show ?case by simp
next
  case (Cons item rest)
  obtain go st' where body: "forAwaitBody cs ce item st = (go, st')"
    by (cases "forAwaitBody cs ce item st")
  have "set (console st) \<subseteq> set (console st')"
    using forAwaitBody_console [of st cs ce item] body by simp
  moreover have "set (console st') \<subseteq> set (console (forAwait cs ce rest st'))"
    by (rule Cons.IH)
  ultimately show ?case using body by (cases go) auto
qed

lemma forAwait_valid_Cons:
  "forAwait cs False (Frame (Some chunk) # rest) st
     = forAwait cs False rest (onAudioFrame cs False chunk st)"
  by simp

lemma forAwait_bytes:
  assumes "length (frameBuffer st) = FRAME_SIZE"
    and "list_all (\<lambda>f. length f = FRAME_SIZE) (encoded st)"
    and "length (pcmBuffer st) + length (concat (tempBuffer st)) < FRAME_SIZE"
    and "\<forall>n. BufferOverflowProtection n
            \<notin> set (console (forAwait cs False (map (\<lambda>c. Frame (Some c)) chunks) st))"
  shows "concat (encoded (forAwait cs False (map (\<lambda>c. Frame (Some c)) chunks) st))
           @ pcmBuffer (forAwait cs False (map (\<lambda>c. Frame (Some c)) chunks) st)
           @ concat (tempBuffer (forAwait cs False (map (\<lambda>c. Frame (Some c)) chunks) st))
         = concat (encoded st) @ pcmBuffer st @ concat (tempBuffer st) @ concat chunks
       \<and> list_all (\<lambda>f. length f = FRAME_SIZE)
           (encoded (forAwait cs False (map (\<lambda>c. Frame (Some c)) chunks) st))
       \<and> length (pcmBuffer (forAwait cs False (map (\<lambda>c. Frame (Some c)) chunks) st))
           + length (concat (tempBuffer (forAwait cs False (map (\<lambda>c. Frame (Some c)) chunks) st)))
           < FRAME_SIZE"
  using assms
proof (induction chunks arbitrary: st)
  case Nil
  then show ?case by simp
next
  case (Cons c rest)
  let ?s = "onAudioFrame cs False c st"
  have fin: "forAwait cs False (map (\<lambda>c. Frame (Some c)) (c # rest)) st
      = forAwait cs False (map (\<lambda>c. Frame (Some c)) rest) ?s"
    by simp
  have no_trip: "length (pcmBuffer st) + length c \<le> MAX_BUFFER_SIZE"
  proof (rule ccontr)
    assume "\<not> ?thesis"
    then have "BufferOverflowProtection (length (pcmBuffer st)) \<in> set (console ?s)"
      using onAudioFrame_trip_logged [of st c cs False] by simp
    then have "BufferOverflowProtection (length (pcmBuffer st))
        \<in> set (console (forAwait cs False (map (\<lambda>c. Frame (Some c)) rest) ?s))"
      using forAwait_console by blast
    then show False using Cons.prems(4) unfolding fin by blast
  qed
  have step: "concat (encoded ?s) @ pcmBuffer ?s @ concat (tempBuffer ?s)
      = concat (encoded st) @ pcmBuffer st @ concat (tempBuffer st) @ c"
    using Cons.prems(1) no_trip by (rule onAudioFrame_bytes)
  have ih: "concat (encoded (forAwait cs False (map (\<lambda>c. Frame (Some c)) rest) ?s))
           @ pcmBuffer (forAwait cs False (map (\<lambda>c. Frame (Some c)) rest) ?s)
           @ concat (tempBuffer (forAwait cs False (map (\<lambda>c. Frame (Some c)) rest) ?s))
         = concat (encoded ?s) @ pcmBuffer ?s @ concat (tempBuffer ?s) @ concat rest
       \<and> list_all (\<lambda>f. length f = FRAME_SIZE)
           (encoded (forAwait cs False (map (\<lambda>c. Frame (Some c)) rest) ?s))
       \<and> length (pcmBuffer (forAwait cs False (map (\<lambda>c. Frame (Some c)) rest) ?s))
           + length (concat (tempBuffer (forAwait cs False (map (\<lambda>c. Frame (Some c)) rest) ?s)))
           < FRAME_SIZE"
  proof (rule Cons.IH)
    show "length (frameBuffer ?s) = FRAME_SIZE"
      using Cons.prems(1,2) by (rule onAudioFrame_frames)
    show "list_all (\<lambda>f. length f = FRAME_SIZE) (encoded ?s)"
      using Cons.prems(1,2) by (rule onAudioFrame_frames)
    show "length (pcmBuffer ?s) + length (concat (tempBuffer ?s)) < FRAME_SIZE"
      by (rule onAudioFrame_pending)
    show "\<forall>n. BufferOverflowProtection n
            \<notin> set (console (forAwait cs False (map (\<lambda>c. Frame (Some c)) rest) ?s))"
      using Cons.prems(4) unfolding fin .
  qed
  have "concat (encoded ?s) @ pcmBuffer ?s @ concat (tempBuffer ?s) @ concat rest
      = (concat (encoded ?s) @ pcmBuffer ?s @ concat (tempBuffer ?s)) @ concat rest"
    by simp
  also have "\<dots> = concat (encoded st) @ pcmBuffer st @ concat (tempBuffer st) @ concat (c # rest)"
    unfolding step by simp
  finally show ?case using ih unfolding fin by simp
qed

lemma cleanup_effects:
  "encoded (cleanup gc st) = encoded st"
  "sent (cleanup gc st) = sent st"
  "sequenceNumber (cleanup gc st) = sequenceNumber st"
  "timestamp (cleanup gc st) = timestamp st"
  "ssrc (cleanup gc st) = ssrc st"
  by (simp_all add: cleanup_def Let_def split: option.splits bool.splits)

lemma cleanup_console: "set (console st) \<subseteq> set (console (cleanup gc st))"
  by (auto simp: cleanup_def Let_def split: option.splits bool.splits)

lemma initialState_fields:
  "pcmBuffer (initialState now r) = []"
  "tempBuffer (initialState now r) = []"
  "length (frameBuffer (initialState now r)) = FRAME_SIZE"
  "encoded (initialState now r) = []"
  "sent (initialState now r) = []"
  "console (initialState now r) = []"
  "ssrc (initialState now r) = randomInt r"
  "sequenceNumber (initialState now r) = (now div 1000) mod 65536"
  "timestamp (initialState now r) = int (now div 1000)"
  by (simp_all add: initialState_def)

lemma whole_frames_total:
  fixes frames :: "Buffer list" and rest received :: Buffer
  assumes split: "concat frames @ rest = received"
    and full: "list_all (\<lambda>f. length f = 640) frames"
    and short: "length rest < 640"
  shows "length (concat frames) = length received - length received mod 640"
proof -
  have "length (concat frames) = 640 * length frames"
    using full by (induction frames) simp_all
  moreover have "length received = length (concat frames) + length rest"
    using split by (metis length_append)
  ultimately show ?thesis using short by simp
qed

section \<open>Whole frames only (claim C3)\<close>

text \<open>
  Claim C3. Take a stream of valid frames with chunks \<open>chunks\<close>, a call that has not
  ended (the session is not disposed, \<^verbatim>\<open>callEnded\<close> is false) and a run in which the
  overflow protection never logs a trip. Then the bytes handed to the encoder, summed
  over all its calls, are the bytes received minus (received mod 640); every call of
  the encoder gets exactly 640 bytes; the frames are, in order, the leading bytes of the
  received audio; and in every run of the inner loop the accumulation buffer gets
  shorter by exactly 640 bytes for each frame handed out.
\<close>

theorem outbound_encodes_whole_frames:
  assumes alive: "\<not> disposed cs"
    and no_trip: "\<forall>n. BufferOverflowProtection n \<notin> set (console
          (sendLivekitAudioStreamToCallSession (Some (map (\<lambda>c. Frame (Some c)) chunks))
             cs False now r gc))"
  shows "sum_list (map length (encoded
            (sendLivekitAudioStreamToCallSession (Some (map (\<lambda>c. Frame (Some c)) chunks))
               cs False now r gc)))
           = sum_list (map length chunks) - sum_list (map length chunks) mod 640
       \<and> list_all (\<lambda>frame. length frame = 640) (encoded
            (sendLivekitAudioStreamToCallSession (Some (map (\<lambda>c. Frame (Some c)) chunks))
               cs False now r gc))
       \<and> concat (encoded
            (sendLivekitAudioStreamToCallSession (Some (map (\<lambda>c. Frame (Some c)) chunks))
               cs False now r gc))
           = take (sum_list (map length chunks) - sum_list (map length chunks) mod 640)
               (concat chunks)
       \<and> length (pcmBuffer (drainFrames cs ended st))
            + 640 * (length (encoded (drainFrames cs ended st)) - length (encoded st))
           = length (pcmBuffer st)"
proof -
  let ?fin = "forAwait cs False (map (\<lambda>c. Frame (Some c)) chunks) (initialState now r)"
  have res: "sendLivekitAudioStreamToCallSession (Some (map (\<lambda>c. Frame (Some c)) chunks))
      cs False now r gc = cleanup gc ?fin"
    using alive by (simp add: sendLivekitAudioStreamToCallSession_def)
  have quiet: "\<forall>n. BufferOverflowProtection n \<notin> set (console ?fin)"
    using no_trip cleanup_console [of ?fin gc] unfolding res by blast
  have inv: "concat (encoded ?fin) @ pcmBuffer ?fin @ concat (tempBuffer ?fin)
        = concat (encoded (initialState now r)) @ pcmBuffer (initialState now r)
            @ concat (tempBuffer (initialState now r)) @ concat chunks
      \<and> list_all (\<lambda>f. length f = FRAME_SIZE) (encoded ?fin)
      \<and> length (pcmBuffer ?fin) + length (concat (tempBuffer ?fin)) < FRAME_SIZE"
  proof (rule forAwait_bytes)
    show "length (frameBuffer (initialState now r)) = FRAME_SIZE"
      by (simp add: initialState_fields)
    show "list_all (\<lambda>f. length f = FRAME_SIZE) (encoded (initialState now r))"
      by (simp add: initialState_fields)
    show "length (pcmBuffer (initialState now r))
        + length (concat (tempBuffer (initialState now r))) < FRAME_SIZE"
      by (simp add: initialState_fields FRAME_SIZE_eq)
    show "\<forall>n. BufferOverflowProtection n \<notin> set (console ?fin)"
      by (rule quiet)
  qed
  have split: "concat (encoded ?fin) @ (pcmBuffer ?fin @ concat (tempBuffer ?fin)) = concat chunks"
    using inv by (simp add: initialState_fields)
  have full: "list_all (\<lambda>f. length f = 640) (encoded ?fin)"
    using inv by (simp add: FRAME_SIZE_eq)
  have short: "length (pcmBuffer ?fin @ concat (tempBuffer ?fin)) < 640"
    using inv by (simp add: FRAME_SIZE_eq)
  have total: "length (concat (encoded ?fin))
      = length (concat chunks) - length (concat chunks) mod 640"
    using split full short by (rule whole_frames_total)
  have sums: "sum_list (map length (encoded ?fin))
      = sum_list (map length chunks) - sum_list (map length chunks) mod 640"
    using total by (simp add: length_concat)
  have prefix: "concat (encoded ?fin)
      = take (sum_list (map length chunks) - sum_list (map length chunks) mod 640) (concat chunks)"
  proof -
    have "take (length (concat (encoded ?fin))) (concat chunks) = concat (encoded ?fin)"
      unfolding split [symmetric] by simp
    then show ?thesis using total by (simp add: length_concat)
  qed
  have shrink: "length (pcmBuffer (drainFrames cs ended st))
            + 640 * (length (encoded (drainFrames cs ended st)) - length (encoded st))
           = length (pcmBuffer st)"
    using drainFrames_shrinks [of cs ended st] by (simp add: FRAME_SIZE_eq)
  show ?thesis
    unfolding res cleanup_effects using sums full prefix shrink by simp
qed

text \<open>The rewrite rules that run the pipeline on a concrete input.\<close>

lemmas run_simps = sendLivekitAudioStreamToCallSession_def initialState_def onAudioFrame_def
  accumulate_def sendFrame_def cleanup_def Buffer_copy_def drainFrames.simps Let_def
  FRAME_SIZE_eq MAX_BUFFER_SIZE_eq exampleSession_def

theorem outbound_encodes_whole_frames_witness:
  "\<not> disposed exampleSession
   \<and> (\<forall>n. BufferOverflowProtection n \<notin> set (console
          (sendLivekitAudioStreamToCallSession
             (Some (map (\<lambda>c. Frame (Some c)) [replicate 400 1, replicate 400 2, replicate 200 3]))
             exampleSession False 0 0 None)))
   \<and> sum_list (map length (encoded
          (sendLivekitAudioStreamToCallSession
             (Some (map (\<lambda>c. Frame (Some c)) [replicate 400 1, replicate 400 2, replicate 200 3]))
             exampleSession False 0 0 None))) = 640
   \<and> concat (encoded
          (sendLivekitAudioStreamToCallSession
             (Some (map (\<lambda>c. Frame (Some c)) [replicate 400 1, replicate 400 2, replicate 200 3]))
             exampleSession False 0 0 None))
        = replicate 400 1 @ replicate 240 2"
proof -
  have alive: "\<not> disposed exampleSession"
    by (simp add: exampleSession_def)
  have quiet: "\<forall>n. BufferOverflowProtection n \<notin> set (console
          (sendLivekitAudioStreamToCallSession
             (Some (map (\<lambda>c. Frame (Some c)) [replicate 400 1, replicate 400 2, replicate 200 3]))
             exampleSession False 0 0 None))"
    by (simp add: run_simps)
  show ?thesis
    using alive quiet
      outbound_encodes_whole_frames [OF alive quiet, where st = "initialState 0 0" and ended = False]
    by simp
qed

section \<open>Sequence numbers and timestamps (claims C4 and C5)\<close>

lemma wrap_increment:
  "(if (s mod 65536) + 1 > 65535 then 0 else (s mod 65536) + 1) = (s + 1) mod (65536::nat)"
proof -
  have "s mod 65536 < (65536::nat)" by simp
  then show ?thesis by (auto simp: mod_Suc)
qed

lemma sendFrame_numbers:
  "(sent (sendFrame cs st) = sent st \<and> sequenceNumber (sendFrame cs st) = sequenceNumber st
      \<and> timestamp (sendFrame cs st) = timestamp st)
   \<or> (\<exists>pkt. sent (sendFrame cs st) = sent st @ [pkt]
      \<and> hdr_sequenceNumber (header pkt) = sequenceNumber st
      \<and> hdr_timestamp (header pkt) = timestamp st
      \<and> sequenceNumber (sendFrame cs st)
          = (if sequenceNumber st + 1 > 65535 then 0 else sequenceNumber st + 1)
      \<and> timestamp (sendFrame cs st) = timestamp st + codec_timestampInterval cs)"
  by (simp add: sendFrame_def Let_def split: option.splits)

lemma sendFrame_wellNumbered:
  assumes "wellNumbered s0 t0 (codec_timestampInterval cs) st"
  shows "wellNumbered s0 t0 (codec_timestampInterval cs) (sendFrame cs st)"
  using sendFrame_numbers [of cs st]
proof (elim disjE conjE exE)
  assume "sent (sendFrame cs st) = sent st"
    "sequenceNumber (sendFrame cs st) = sequenceNumber st"
    "timestamp (sendFrame cs st) = timestamp st"
  then show ?thesis using assms by (simp add: wellNumbered_def)
next
  fix pkt
  assume sent': "sent (sendFrame cs st) = sent st @ [pkt]"
    and seq_pkt: "hdr_sequenceNumber (header pkt) = sequenceNumber st"
    and ts_pkt: "hdr_timestamp (header pkt) = timestamp st"
    and seq': "sequenceNumber (sendFrame cs st)
        = (if sequenceNumber st + 1 > 65535 then 0 else sequenceNumber st + 1)"
    and ts': "timestamp (sendFrame cs st) = timestamp st + codec_timestampInterval cs"
  let ?n = "length (sent st)"
  have seq_st: "sequenceNumber st = (s0 + ?n) mod 65536"
    and ts_st: "timestamp st = t0 + int ?n * codec_timestampInterval cs"
    and old: "\<And>i. i < ?n \<Longrightarrow>
        hdr_sequenceNumber (header (sent st ! i)) = (s0 + i) mod 65536 \<and>
        hdr_timestamp (header (sent st ! i)) = t0 + int i * codec_timestampInterval cs"
    using assms by (simp_all add: wellNumbered_def)
  have seq_new: "sequenceNumber (sendFrame cs st) = (s0 + (?n + 1)) mod 65536"
  proof -
    have "sequenceNumber (sendFrame cs st) = (s0 + ?n + 1) mod 65536"
      unfolding seq' seq_st by (rule wrap_increment)
    then show ?thesis by (simp only: add.assoc)
  qed
  have ts_new: "timestamp (sendFrame cs st) = t0 + int (?n + 1) * codec_timestampInterval cs"
    unfolding ts' ts_st by (simp add: algebra_simps)
  have each: "hdr_sequenceNumber (header ((sent st @ [pkt]) ! i)) = (s0 + i) mod 65536 \<and>
        hdr_timestamp (header ((sent st @ [pkt]) ! i)) = t0 + int i * codec_timestampInterval cs"
    if "i < ?n + 1" for i
  proof (cases "i < ?n")
    case True
    then show ?thesis using old [of i] by (simp add: nth_append)
  next
    case False
    then have "i = ?n" using that by simp
    then show ?thesis using seq_pkt ts_pkt seq_st ts_st by (simp add: nth_append)
  qed
  have all: "\<forall>i < length (sent (sendFrame cs st)).
      hdr_sequenceNumber (header (sent (sendFrame cs st) ! i)) = (s0 + i) mod 65536 \<and>
      hdr_timestamp (header (sent (sendFrame cs st) ! i)) = t0 + int i * codec_timestampInterval cs"
    unfolding sent' using each by simp
  have len: "length (sent (sendFrame cs st)) = ?n + 1"
    unfolding sent' by simp
  show ?thesis
    unfolding wellNumbered_def
  proof (intro conjI)
    show "\<forall>i < length (sent (sendFrame cs st)).
      hdr_sequenceNumber (header (sent (sendFrame cs st) ! i)) = (s0 + i) mod 65536 \<and>
      hdr_timestamp (header (sent (sendFrame cs st) ! i)) = t0 + int i * codec_timestampInterval cs"
      by (rule all)
    show "sequenceNumber (sendFrame cs st) = (s0 + length (sent (sendFrame cs st))) mod 65536"
      unfolding len by (rule seq_new)
    show "timestamp (sendFrame cs st)
        = t0 + int (length (sent (sendFrame cs st))) * codec_timestampInterval cs"
      unfolding len by (rule ts_new)
  qed
qed

lemma drainFrames_wellNumbered:
  "wellNumbered s0 t0 (codec_timestampInterval cs) st \<Longrightarrow>
   wellNumbered s0 t0 (codec_timestampInterval cs) (drainFrames cs ce st)"
proof (induction cs ce st rule: drainFrames.induct)
  case (1 cs ce st)
  show ?case
  proof (cases "length (pcmBuffer st) \<ge> FRAME_SIZE \<and> \<not> ce")
    case True
    then show ?thesis
      using 1 by (simp add: drainFrames_step sendFrame_wellNumbered)
  next
    case False
    then show ?thesis using 1 by (simp add: drainFrames_stop)
  qed
qed

lemma wellNumbered_transfer:
  "wellNumbered s0 t0 step st \<Longrightarrow> sent st' = sent st \<Longrightarrow>
   sequenceNumber st' = sequenceNumber st \<Longrightarrow> timestamp st' = timestamp st \<Longrightarrow>
   wellNumbered s0 t0 step st'"
  by (simp add: wellNumbered_def)

lemma onAudioFrame_wellNumbered:
  assumes "wellNumbered s0 t0 (codec_timestampInterval cs) st"
  shows "wellNumbered s0 t0 (codec_timestampInterval cs) (onAudioFrame cs ce chunk st)"
proof -
  have "wellNumbered s0 t0 (codec_timestampInterval cs) (accumulate chunk st)"
    using assms by (rule wellNumbered_transfer) (simp_all add: accumulate_untouched)
  then show ?thesis
    unfolding onAudioFrame_def by (rule drainFrames_wellNumbered)
qed

lemma forAwaitBody_wellNumbered:
  assumes wn: "wellNumbered s0 t0 (codec_timestampInterval cs) st"
  shows "wellNumbered s0 t0 (codec_timestampInterval cs) (snd (forAwaitBody cs ce item st))"
proof (cases item)
  case StreamFailure
  show ?thesis
    using wn by (rule wellNumbered_transfer) (simp_all add: StreamFailure)
next
  case (Frame audioFrame)
  show ?thesis
  proof (cases ce)
    case True
    show ?thesis
      using wn by (rule wellNumbered_transfer) (simp_all add: Frame True)
  next
    case False
    show ?thesis
    proof (cases audioFrame)
      case None
      show ?thesis
        using wn by (rule wellNumbered_transfer) (simp_all add: Frame False None)
    next
      case (Some chunk)
      then show ?thesis
        using Frame False onAudioFrame_wellNumbered [OF wn, of False chunk] by simp
    qed
  qed
qed

lemma forAwait_wellNumbered:
  "wellNumbered s0 t0 (codec_timestampInterval cs) st \<Longrightarrow>
   wellNumbered s0 t0 (codec_timestampInterval cs) (forAwait cs ce items st)"
proof (induction items arbitrary: st)
  case Nil
  then show ?case by simp
next
  case (Cons item rest)
  obtain go st' where body: "forAwaitBody cs ce item st = (go, st')"
    by (cases "forAwaitBody cs ce item st")
  have "wellNumbered s0 t0 (codec_timestampInterval cs) st'"
    using forAwaitBody_wellNumbered [OF Cons.prems, of ce item] body by simp
  then show ?case using body Cons.IH [of st'] by (cases go) simp_all
qed

lemma initialState_wellNumbered:
  "wellNumbered ((now div 1000) mod 65536) (int (now div 1000)) step (initialState now r)"
  by (simp add: wellNumbered_def initialState_def)

text \<open>
  Claim C4. In one invocation, the \<open>N\<close>th packet handed to \<^verbatim>\<open>sendPacket\<close> (counting
  from 1) carries the sequence number (initial + \<open>N\<close> - 1) mod 65536, which is below
  65536 and so steps from 65535 to 0, and the timestamp initial +
  (\<open>N\<close> - 1) * \<^verbatim>\<open>codec.timestampInterval\<close>; the initial values are those of the
  state the invocation starts from.
\<close>

theorem rtp_sequence_and_timestamp:
  assumes "1 \<le> N"
    and "N \<le> length (sent (sendLivekitAudioStreamToCallSession audioStream cs ended now r gc))"
  shows "hdr_sequenceNumber (header
            (sent (sendLivekitAudioStreamToCallSession audioStream cs ended now r gc) ! (N - 1)))
           = (sequenceNumber (initialState now r) + N - 1) mod 65536
       \<and> hdr_sequenceNumber (header
            (sent (sendLivekitAudioStreamToCallSession audioStream cs ended now r gc) ! (N - 1)))
           < 65536
       \<and> hdr_timestamp (header
            (sent (sendLivekitAudioStreamToCallSession audioStream cs ended now r gc) ! (N - 1)))
           = timestamp (initialState now r) + (int N - 1) * codec_timestampInterval cs"
proof -
  let ?res = "sendLivekitAudioStreamToCallSession audioStream cs ended now r gc"
  let ?s0 = "sequenceNumber (initialState now r)"
  let ?t0 = "timestamp (initialState now r)"
  have nonempty: "sent ?res \<noteq> []"
    using assms by auto
  then obtain items where stream: "audioStream = Some items" and alive: "\<not> disposed cs"
    by (cases audioStream; cases "disposed cs")
       (simp_all add: sendLivekitAudioStreamToCallSession_def returnedEarly_def)
  let ?fin = "forAwait cs ended items (initialState now r)"
  have res: "sent ?res = sent ?fin"
    using stream alive by (simp add: sendLivekitAudioStreamToCallSession_def cleanup_effects)
  have "wellNumbered ?s0 ?t0 (codec_timestampInterval cs) ?fin"
    by (rule forAwait_wellNumbered) (simp add: wellNumbered_def initialState_def)
  moreover have idx: "N - 1 < length (sent ?fin)"
    using assms res by simp
  ultimately have nth:
    "hdr_sequenceNumber (header (sent ?fin ! (N - 1))) = (?s0 + (N - 1)) mod 65536"
    "hdr_timestamp (header (sent ?fin ! (N - 1)))
       = ?t0 + int (N - 1) * codec_timestampInterval cs"
    by (simp_all add: wellNumbered_def)
  have "?s0 + (N - 1) = ?s0 + N - 1" using assms(1) by simp
  moreover have "int (N - 1) = int N - 1" using assms(1) by simp
  moreover have "(?s0 + (N - 1)) mod 65536 < 65536" by simp
  ultimately show ?thesis using nth unfolding res by simp
qed

theorem rtp_sequence_and_timestamp_witness:
  "(1::nat) \<le> 2
   \<and> 2 \<le> length (sent (sendLivekitAudioStreamToCallSession
          (Some [Frame (Some (replicate 640 1)), Frame (Some (replicate 640 2))])
          exampleSession False 65535000 0 None))
   \<and> map (\<lambda>p. hdr_sequenceNumber (header p)) (sent (sendLivekitAudioStreamToCallSession
          (Some [Frame (Some (replicate 640 1)), Frame (Some (replicate 640 2))])
          exampleSession False 65535000 0 None)) = [65535, 0]
   \<and> hdr_timestamp (header (sent (sendLivekitAudioStreamToCallSession
          (Some [Frame (Some (replicate 640 1)), Frame (Some (replicate 640 2))])
          exampleSession False 65535000 0 None) ! (2 - 1))) = 65535 + 320"
proof -
  let ?res = "sendLivekitAudioStreamToCallSession
          (Some [Frame (Some (replicate 640 1)), Frame (Some (replicate 640 2))])
          exampleSession False 65535000 0 None"
  have one: "(1::nat) \<le> 2" by simp
  have seqs: "map (\<lambda>p. hdr_sequenceNumber (header p)) (sent ?res) = [65535, 0]"
    by (simp add: run_simps)
  have len: "2 \<le> length (sent ?res)"
    using arg_cong [OF seqs, of length] by simp
  have "hdr_timestamp (header (sent ?res ! (2 - 1)))
      = timestamp (initialState 65535000 0) + (int 2 - 1) * codec_timestampInterval exampleSession"
    by (rule rtp_sequence_and_timestamp [OF one len, THEN conjunct2, THEN conjunct2])
  then have "hdr_timestamp (header (sent ?res ! (2 - 1))) = 65535 + 320"
    by (simp add: initialState_def exampleSession_def)
  with one len seqs show ?thesis by (intro conjI)
qed




section \<open>The scenario of three frames (claim C6)\<close>

text \<open>
  Claim C6, as the code has it. Feed a fresh pipeline (call not ended) three valid frames
  of 400, 400 and 200 bytes, with an encoder that takes the one frame it is given.
  Exactly one frame is encoded, the first 640 bytes received, and one packet with its
  encoding is sent. Of the 360 bytes left, the accumulation buffer holds 160, the rest of
  the second frame; the 200 bytes of the third frame wait in the pending list and are
  not merged, since one pending entry with 360 bytes in all reaches neither threshold.
\<close>

theorem three_frames_400_400_200:
  assumes "length c1 = 400" and "length c2 = 400" and "length c3 = 200"
    and "encode cs [] (take 640 (c1 @ c2)) = Some e"
  shows "encoded (forAwait cs False [Frame (Some c1), Frame (Some c2), Frame (Some c3)]
            (initialState now r)) = [take 640 (c1 @ c2)]
       \<and> map payload (sent (forAwait cs False
            [Frame (Some c1), Frame (Some c2), Frame (Some c3)] (initialState now r))) = [e]
       \<and> pcmBuffer (forAwait cs False [Frame (Some c1), Frame (Some c2), Frame (Some c3)]
            (initialState now r)) = drop 240 c2
       \<and> length (pcmBuffer (forAwait cs False
            [Frame (Some c1), Frame (Some c2), Frame (Some c3)] (initialState now r))) = 160
       \<and> tempBuffer (forAwait cs False [Frame (Some c1), Frame (Some c2), Frame (Some c3)]
            (initialState now r)) = [c3]
       \<and> length (pcmBuffer (forAwait cs False
            [Frame (Some c1), Frame (Some c2), Frame (Some c3)] (initialState now r)))
           + length (concat (tempBuffer (forAwait cs False
            [Frame (Some c1), Frame (Some c2), Frame (Some c3)] (initialState now r)))) = 360"
proof -
  let ?s0 = "initialState now r"
  have s1: "onAudioFrame cs False c1 ?s0
      = ?s0\<lparr> tempBuffer := [c1], frameCount := 1, totalBytesProcessed := 400 \<rparr>"
    using assms(1)
    by (simp add: onAudioFrame_def accumulate_def Let_def initialState_def FRAME_SIZE_eq
        MAX_BUFFER_SIZE_eq drainFrames_stop)
  let ?s1 = "?s0\<lparr> tempBuffer := [c1], frameCount := 1, totalBytesProcessed := 400 \<rparr>"
  have a2: "accumulate c2 ?s1
      = ?s0\<lparr> pcmBuffer := c1 @ c2, frameCount := 2, totalBytesProcessed := 800 \<rparr>"
    using assms(1,2)
    by (simp add: accumulate_def Let_def initialState_def FRAME_SIZE_eq MAX_BUFFER_SIZE_eq)
  let ?a2 = "?s0\<lparr> pcmBuffer := c1 @ c2, frameCount := 2, totalBytesProcessed := 800 \<rparr>"
  have f2: "encoded (sendFrame cs ?a2) = [take 640 (c1 @ c2)]"
    "map payload (sent (sendFrame cs ?a2)) = [e]"
    "pcmBuffer (sendFrame cs ?a2) = drop 240 c2"
    "tempBuffer (sendFrame cs ?a2) = []"
    using assms
    by (simp_all add: sendFrame_def Let_def initialState_def FRAME_SIZE_eq Buffer_copy_def)
  have short: "length (pcmBuffer (sendFrame cs ?a2)) = 160"
    using assms(2) by (simp add: f2)
  have d2: "drainFrames cs False ?a2 = sendFrame cs ?a2"
  proof -
    have "drainFrames cs False ?a2 = drainFrames cs False (sendFrame cs ?a2)"
      using assms(1,2) by (simp add: drainFrames_step FRAME_SIZE_eq)
    also have "\<dots> = sendFrame cs ?a2"
      using short by (simp add: drainFrames_stop FRAME_SIZE_eq)
    finally show ?thesis .
  qed
  have s2: "onAudioFrame cs False c2 ?s1 = sendFrame cs ?a2"
    unfolding onAudioFrame_def a2 by (rule d2)
  let ?s2 = "sendFrame cs ?a2"
  have a3: "accumulate c3 ?s2
      = ?s2\<lparr> frameCount := frameCount ?s2 + 1,
              totalBytesProcessed := totalBytesProcessed ?s2 + 200,
              tempBuffer := [c3] \<rparr>"
    using assms(3) short
    by (simp add: accumulate_def Let_def f2 FRAME_SIZE_eq MAX_BUFFER_SIZE_eq)
  have s3: "onAudioFrame cs False c3 ?s2 = accumulate c3 ?s2"
    unfolding onAudioFrame_def using short
    by (simp add: drainFrames_stop a3 FRAME_SIZE_eq)
  have fin: "forAwait cs False [Frame (Some c1), Frame (Some c2), Frame (Some c3)] ?s0
      = accumulate c3 ?s2"
  proof -
    have "forAwait cs False [Frame (Some c1), Frame (Some c2), Frame (Some c3)] ?s0
        = onAudioFrame cs False c3 (onAudioFrame cs False c2 (onAudioFrame cs False c1 ?s0))"
      by simp
    also have "\<dots> = accumulate c3 ?s2"
      unfolding s1 s2 s3 ..
    finally show ?thesis .
  qed
  show ?thesis
    unfolding fin a3 using f2 short assms(3) by simp
qed

theorem three_frames_400_400_200_witness:
  "length (replicate 400 (1::byte)) = 400 \<and> length (replicate 400 (2::byte)) = 400
   \<and> length (replicate 200 (3::byte)) = 200
   \<and> encode exampleSession [] (take 640 (replicate 400 1 @ replicate 400 2)) = Some (replicate 2 1)
   \<and> encoded (forAwait exampleSession False
         [Frame (Some (replicate 400 1)), Frame (Some (replicate 400 2)),
          Frame (Some (replicate 200 3))] (initialState 0 0))
       = [replicate 400 1 @ replicate 240 2]
   \<and> pcmBuffer (forAwait exampleSession False
         [Frame (Some (replicate 400 1)), Frame (Some (replicate 400 2)),
          Frame (Some (replicate 200 3))] (initialState 0 0)) = replicate 160 2
   \<and> tempBuffer (forAwait exampleSession False
         [Frame (Some (replicate 400 1)), Frame (Some (replicate 400 2)),
          Frame (Some (replicate 200 3))] (initialState 0 0)) = [replicate 200 3]"
proof -
  have l1: "length (replicate 400 (1::byte)) = 400"
    and l2: "length (replicate 400 (2::byte)) = 400"
    and l3: "length (replicate 200 (3::byte)) = 200"
    by simp_all
  have enc: "encode exampleSession [] (take 640 (replicate 400 1 @ replicate 400 2))
      = Some (replicate 2 1)"
    by (simp add: exampleSession_def)
  show ?thesis
    using l1 l2 l3 enc three_frames_400_400_200 [OF l1 l2 l3 enc, of 0 0]
    by simp
qed

text \<open>
  The accumulation buffer itself does not hold 360 bytes after the three frames: on the
  example session it holds 160.
\<close>

theorem three_frames_accumulation_buffer_counterexample:
  "\<not> (length (encoded (forAwait exampleSession False
           [Frame (Some (replicate 400 1)), Frame (Some (replicate 400 2)),
            Frame (Some (replicate 200 3))] (initialState 0 0))) = 1
      \<and> length (sent (forAwait exampleSession False
           [Frame (Some (replicate 400 1)), Frame (Some (replicate 400 2)),
            Frame (Some (replicate 200 3))] (initialState 0 0))) = 1
      \<and> length (pcmBuffer (forAwait exampleSession False
           [Frame (Some (replicate 400 1)), Frame (Some (replicate 400 2)),
            Frame (Some (replicate 200 3))] (initialState 0 0))) = 360)"
proof -
  have "length (pcmBuffer (forAwait exampleSession False
           [Frame (Some (replicate 400 1)), Frame (Some (replicate 400 2)),
            Frame (Some (replicate 200 3))] (initialState 0 0))) = 160"
    by (simp add: run_simps)
  then show ?thesis by simp
qed

section \<open>The synchronisation source (claim C9)\<close>

lemma roundTiesToEven_bounds:
  "of_int (roundTiesToEven y) \<le> y + 1 / 2 \<and> y - 1 / 2 \<le> of_int (roundTiesToEven y)"
proof -
  have lo: "of_int \<lfloor>y\<rfloor> \<le> y" and hi: "y < of_int \<lfloor>y\<rfloor> + 1" by linarith+
  consider "y - of_int \<lfloor>y\<rfloor> < 1 / 2" | "y - of_int \<lfloor>y\<rfloor> > 1 / 2"
    | "y - of_int \<lfloor>y\<rfloor> = 1 / 2" by linarith
  then show ?thesis
  proof cases
    case 1
    then have "roundTiesToEven y = \<lfloor>y\<rfloor>" by (simp add: roundTiesToEven_def Let_def)
    then have "real_of_int (roundTiesToEven y) = of_int \<lfloor>y\<rfloor>" by simp
    then show ?thesis using lo hi 1 by linarith
  next
    case 2
    then have "roundTiesToEven y = \<lfloor>y\<rfloor> + 1" by (simp add: roundTiesToEven_def Let_def)
    then have "real_of_int (roundTiesToEven y) = of_int \<lfloor>y\<rfloor> + 1" by simp
    then show ?thesis using lo hi 2 by linarith
  next
    case 3
    then have "roundTiesToEven y = \<lfloor>y\<rfloor> \<or> roundTiesToEven y = \<lfloor>y\<rfloor> + 1"
      by (simp add: roundTiesToEven_def Let_def)
    then have "real_of_int (roundTiesToEven y) = of_int \<lfloor>y\<rfloor>
        \<or> real_of_int (roundTiesToEven y) = of_int \<lfloor>y\<rfloor> + 1"
      by auto
    then show ?thesis using lo hi 3 by linarith
  qed
qed

lemma roundTiesToEven_of_int: "roundTiesToEven (of_int n) = n"
  by (simp add: roundTiesToEven_def Let_def)

lemma roundTiesToEven_below:
  assumes "y < of_int n - 1 / 2"
  shows "roundTiesToEven y \<le> n - 1"
proof -
  have "of_int (roundTiesToEven y) < (of_int n :: real)"
    using roundTiesToEven_bounds [of y] assms by linarith
  then show ?thesis by simp
qed

lemma roundTiesToEven_le:
  assumes "y \<le> of_int n"
  shows "roundTiesToEven y \<le> n"
proof (cases "y = of_int n")
  case True
  then show ?thesis by (simp add: roundTiesToEven_of_int)
next
  case False
  then have less: "y < of_int n" using assms by simp
  then have fl: "\<lfloor>y\<rfloor> \<le> n - 1" by (simp add: floor_less_iff)
  have "roundTiesToEven y \<le> \<lfloor>y\<rfloor> + 1"
    by (simp add: roundTiesToEven_def Let_def)
  then show ?thesis using fl by simp
qed

lemma roundTiesToEven_nonneg:
  assumes "0 \<le> y"
  shows "0 \<le> roundTiesToEven y"
proof -
  have "0 \<le> \<lfloor>y\<rfloor>" using assms by simp
  moreover have "\<lfloor>y\<rfloor> \<le> roundTiesToEven y"
    by (simp add: roundTiesToEven_def Let_def)
  ultimately show ?thesis by linarith
qed

lemma exponentFrom_bounds:
  assumes "2 ^ k \<le> x" and "x < 2 ^ (k + fuel)"
  shows "2 ^ exponentFrom fuel k x \<le> x \<and> x < 2 ^ Suc (exponentFrom fuel k x)"
  using assms
proof (induction fuel arbitrary: k)
  case 0
  then show ?case by simp
next
  case (Suc fuel)
  show ?case
  proof (cases "x < 2 ^ Suc k")
    case True
    then show ?thesis using Suc.prems by simp
  next
    case False
    then have "2 ^ Suc k \<le> x" by simp
    moreover have "x < 2 ^ (Suc k + fuel)" using Suc.prems(2) by simp
    ultimately show ?thesis using Suc.IH [of "Suc k"] False by simp
  qed
qed

lemma ulp_positive: "0 < ulp x"
  by (simp add: ulp_def)

lemma binary64_nonneg: "0 \<le> x \<Longrightarrow> 0 \<le> binary64 x"
  using ulp_positive [of x] roundTiesToEven_nonneg [of "x / ulp x"]
  by (simp add: binary64_def)

lemma exponentFrom_unique:
  assumes "2 ^ e \<le> x" and "x < 2 ^ Suc e" and "e < fuel"
  shows "exponentFrom fuel 0 x = e"
proof -
  let ?k = "exponentFrom fuel 0 x"
  have "(1::real) \<le> 2 ^ e" by (rule one_le_power) simp
  then have "1 \<le> x" using assms(1) by linarith
  then have one: "(2::real) ^ 0 \<le> x" by simp
  have "(2::real) ^ Suc e \<le> 2 ^ (0 + fuel)"
    using assms(3) by (simp add: power_increasing del: power_Suc)
  then have top: "x < 2 ^ (0 + fuel)" using assms(2) by linarith
  have b: "2 ^ ?k \<le> x \<and> x < 2 ^ Suc ?k"
    using one top by (rule exponentFrom_bounds)
  have "(2::real) ^ ?k < 2 ^ Suc e" using b assms(2) by linarith
  then have "?k < Suc e" by (rule power_less_imp_less_exp [rotated]) simp
  moreover have "(2::real) ^ e < 2 ^ Suc ?k" using b assms(1) by linarith
  then have "e < Suc ?k" by (rule power_less_imp_less_exp [rotated]) simp
  ultimately show ?thesis by simp
qed

lemma binary64_small:
  assumes "0 \<le> x" and "x < 1"
  shows "binary64 x \<le> 1"
proof -
  let ?n = "fractionFrom 1021 1 x + 52"
  have u: "ulp x = 1 / 2 ^ ?n" using assms(2) by (simp add: ulp_def)
  have "x / ulp x = x * 2 ^ ?n" by (simp add: u)
  also have "\<dots> \<le> 2 ^ ?n" using assms by (simp add: mult_left_le_one_le)
  finally have "x / ulp x \<le> of_int (2 ^ ?n)" by simp
  then have "roundTiesToEven (x / ulp x) \<le> 2 ^ ?n" by (rule roundTiesToEven_le)
  then have "real_of_int (roundTiesToEven (x / ulp x)) \<le> 2 ^ ?n"
    by (metis of_int_le_iff of_int_numeral of_int_power)
  then have "ulp x * real_of_int (roundTiesToEven (x / ulp x)) \<le> ulp x * 2 ^ ?n"
    using ulp_positive [of x] by (simp add: mult_left_mono)
  then show ?thesis by (simp add: binary64_def u)
qed

lemma binary64_in_binade:
  assumes "2 ^ k \<le> x" and "x < 2 ^ Suc k" and "k < 1023"
  shows "ulp x = 2 ^ k / 2 ^ 52" and "binary64 x \<le> 2 ^ Suc k"
proof -
  have "(1::real) \<le> 2 ^ k" by (rule one_le_power) simp
  then have one: "1 \<le> x" using assms(1) by linarith
  have e: "exponentFrom 1023 0 x = k"
    using assms by (rule exponentFrom_unique)
  show u: "ulp x = 2 ^ k / 2 ^ 52" using one by (simp add: ulp_def e)
  define P :: real where "P = 2 ^ 52"
  define K :: real where "K = 2 ^ k"
  have P: "0 < P" and K: "0 < K" by (simp_all add: P_def K_def)
  have uPK: "ulp x = K / P" using u by (simp add: P_def K_def)
  have xK: "x < 2 * K" using assms(2) by (simp add: K_def)
  have "x / ulp x = x / K * P" by (simp add: uPK)
  also have "\<dots> \<le> 2 * P"
  proof -
    have "x / K \<le> 2" using xK K by (simp add: pos_divide_le_eq)
    then show ?thesis using P by (rule mult_right_mono [OF _ less_imp_le])
  qed
  also have "\<dots> = of_int (2 ^ 53)" by (simp add: P_def)
  finally have "roundTiesToEven (x / ulp x) \<le> 2 ^ 53" by (rule roundTiesToEven_le)
  then have "real_of_int (roundTiesToEven (x / ulp x)) \<le> of_int (2 ^ 53)"
    by (simp only: of_int_le_iff)
  also have "\<dots> = 2 * P" by (simp add: P_def)
  finally have "ulp x * real_of_int (roundTiesToEven (x / ulp x)) \<le> ulp x * (2 * P)"
    using ulp_positive [of x] by (simp only: mult_le_cancel_left_pos)
  also have "\<dots> = 2 * K" using P by (simp add: uPK)
  finally show "binary64 x \<le> 2 ^ Suc k" by (simp add: binary64_def K_def)
qed

lemma binary64_top_binade:
  assumes "32768 \<le> x" and "x \<le> 64512 - 63 / 2 ^ 43"
  shows "binary64 x < 64512"
proof -
  have lo: "2 ^ 15 \<le> x" using assms(1) by simp
  have hi: "x < 2 ^ Suc 15" using assms(2) by simp
  have u: "ulp x = 2 ^ 15 / 2 ^ 52"
    using lo hi by (rule binary64_in_binade) simp
  then have u': "ulp x = 1 / 2 ^ 37" by simp
  have "x / ulp x = x * 2 ^ 37" by (simp add: u')
  also have "\<dots> \<le> (64512 - 63 / 2 ^ 43) * 2 ^ 37" using assms(2) by simp
  also have "\<dots> < of_int (64512 * 2 ^ 37) - 1 / 2" by simp
  finally have "roundTiesToEven (x / ulp x) \<le> 64512 * 2 ^ 37 - 1"
    by (rule roundTiesToEven_below)
  then have "real_of_int (roundTiesToEven (x / ulp x)) \<le> of_int (64512 * 2 ^ 37 - 1)"
    by (simp only: of_int_le_iff)
  then have "ulp x * real_of_int (roundTiesToEven (x / ulp x))
      \<le> ulp x * of_int (64512 * 2 ^ 37 - 1)"
    using ulp_positive [of x] by (simp only: mult_le_cancel_left_pos)
  also have "\<dots> < 64512" by (simp add: u')
  finally show ?thesis by (simp add: binary64_def)
qed

lemma binary64_below_64512:
  assumes "0 \<le> x" and "x \<le> 64512 - 63 / 2 ^ 43"
  shows "binary64 x < 64512"
proof (cases "x < 1")
  case True
  then show ?thesis using binary64_small [OF assms(1) True] by simp
next
  case False
  show ?thesis
  proof (cases "x < 32768")
    case True
    let ?k = "exponentFrom 1023 0 x"
    have one: "(2::real) ^ 0 \<le> x" using False by simp
    have "x < 2 ^ 15" using True by simp
    also have "(2::real) ^ 15 \<le> 2 ^ (0 + 1023)" by (simp add: power_increasing del: power_Suc)
    finally have top: "x < 2 ^ (0 + 1023)" .
    have b: "2 ^ ?k \<le> x \<and> x < 2 ^ Suc ?k"
      using one top by (rule exponentFrom_bounds)
    have "(2::real) ^ ?k < 2 ^ 15" using b True by simp
    then have k: "?k < 15" by (rule power_less_imp_less_exp [rotated]) simp
    have "binary64 x \<le> 2 ^ Suc ?k"
      using b k by (intro binary64_in_binade(2)) simp_all
    also have "(2::real) ^ Suc ?k \<le> 2 ^ 15"
      using k by (intro power_increasing) simp_all
    finally show ?thesis by simp
  next
    case False
    then show ?thesis using assms(2) by (intro binary64_top_binade) simp_all
  qed
qed

lemma randomInt_range:
  assumes "0 \<le> r" and "r \<le> 1 - 1 / 2 ^ 53"
  shows "1024 \<le> randomInt r \<and> randomInt r \<le> 65535"
proof -
  have x0: "0 \<le> r * 64512" using assms(1) by simp
  have "r * 64512 \<le> (1 - 1 / 2 ^ 53) * 64512" using assms(2) by simp
  also have "\<dots> = 64512 - 63 / 2 ^ 43" by simp
  finally have x1: "r * 64512 \<le> 64512 - 63 / 2 ^ 43" .
  have "binary64 (r * 64512) < 64512" using x0 x1 by (rule binary64_below_64512)
  then have hi: "\<lfloor>binary64 (r * 64512)\<rfloor> < 64512" by (simp add: floor_less_iff)
  have "0 \<le> binary64 (r * 64512)" using x0 by (rule binary64_nonneg)
  then have lo: "0 \<le> \<lfloor>binary64 (r * 64512)\<rfloor>" by simp
  have "nat \<lfloor>binary64 (r * 64512)\<rfloor> \<le> 64511" using lo hi by linarith
  then show ?thesis by (simp add: randomInt_def)
qed

lemma binary64_exact:
  assumes "2 ^ k \<le> x" and "x < 2 ^ Suc k" and "k < 1023"
    and "x * 2 ^ 52 / 2 ^ k = of_int n"
  shows "binary64 x = x"
proof -
  have u: "ulp x = 2 ^ k / 2 ^ 52" using assms(1-3) by (rule binary64_in_binade)
  have "x / ulp x = of_int n" using assms(4) by (simp add: u)
  then have "binary64 x = ulp x * of_int n"
    by (simp add: binary64_def roundTiesToEven_of_int)
  also have "\<dots> = ulp x * (x / ulp x)" using \<open>x / ulp x = of_int n\<close> by simp
  also have "\<dots> = x" using ulp_positive [of x] by simp
  finally show ?thesis .
qed

lemma randomInt_half: "randomInt (1 / 2) = 33280"
proof -
  have "binary64 32256 = 32256"
  proof (rule binary64_exact [where k = 14 and n = "32256 * 2 ^ 38"])
    show "(2::real) ^ 14 \<le> 32256" by simp
    show "(32256::real) < 2 ^ Suc 14" by simp
    show "(14::nat) < 1023" by simp
    show "(32256::real) * 2 ^ 52 / 2 ^ 14 = of_int (32256 * 2 ^ 38)" by simp
  qed
  then show ?thesis by (simp add: randomInt_def)
qed

lemma randomInt_zero: "randomInt 0 = 1024"
  by (simp add: randomInt_def binary64_def roundTiesToEven_def)

lemma stamped_transfer:
  "stamped cs v st \<Longrightarrow> sent st' = sent st \<Longrightarrow> ssrc st' = ssrc st \<Longrightarrow> stamped cs v st'"
  by (simp add: stamped_def)

lemma sendFrame_stamped:
  "stamped cs v st \<Longrightarrow> stamped cs v (sendFrame cs st)"
  by (simp add: stamped_def sendFrame_def Let_def split: option.splits)

lemma drainFrames_stamped:
  "stamped cs v st \<Longrightarrow> stamped cs v (drainFrames cs ce st)"
proof (induction cs ce st rule: drainFrames.induct)
  case (1 cs ce st)
  show ?case
  proof (cases "length (pcmBuffer st) \<ge> FRAME_SIZE \<and> \<not> ce")
    case True
    then show ?thesis using 1 by (simp add: drainFrames_step sendFrame_stamped)
  next
    case False
    then show ?thesis using 1 by (simp add: drainFrames_stop)
  qed
qed

lemma onAudioFrame_stamped:
  assumes "stamped cs v st"
  shows "stamped cs v (onAudioFrame cs ce chunk st)"
proof -
  have "stamped cs v (accumulate chunk st)"
    using assms by (rule stamped_transfer) (simp_all add: accumulate_untouched)
  then show ?thesis unfolding onAudioFrame_def by (rule drainFrames_stamped)
qed

lemma forAwaitBody_stamped:
  assumes st: "stamped cs v st"
  shows "stamped cs v (snd (forAwaitBody cs ce item st))"
proof (cases item)
  case StreamFailure
  show ?thesis using st by (rule stamped_transfer) (simp_all add: StreamFailure)
next
  case (Frame audioFrame)
  show ?thesis
  proof (cases ce)
    case True
    show ?thesis using st by (rule stamped_transfer) (simp_all add: Frame True)
  next
    case False
    show ?thesis
    proof (cases audioFrame)
      case None
      show ?thesis using st by (rule stamped_transfer) (simp_all add: Frame False None)
    next
      case (Some chunk)
      then show ?thesis
        using Frame False onAudioFrame_stamped [OF st, of False chunk] by simp
    qed
  qed
qed

lemma forAwait_stamped:
  "stamped cs v st \<Longrightarrow> stamped cs v (forAwait cs ce items st)"
proof (induction items arbitrary: st)
  case Nil
  then show ?case by simp
next
  case (Cons item rest)
  obtain go st' where body: "forAwaitBody cs ce item st = (go, st')"
    by (cases "forAwaitBody cs ce item st")
  have "stamped cs v st'"
    using forAwaitBody_stamped [OF Cons.prems, of ce item] body by simp
  then show ?case using body Cons.IH [of st'] by (cases go) simp_all
qed

text \<open>
  Claim C9. The \<open>ssrc\<close> of an invocation is the one value \<^verbatim>\<open>randomInt()\<close> returns at
  its start, a number from 1024 to 65535 for every value \<^verbatim>\<open>Math.random()\<close> can return
  (a binary64 value in \<open>[0, 1)\<close> is at most 1 - 1 / 2 ^ 53); the variable keeps it through
  the whole run, and every packet the invocation hands to \<^verbatim>\<open>sendPacket\<close> carries it,
  with version 2 and with padding and extension unset.
\<close>

theorem ssrc_fixed_per_invocation:
  assumes "0 \<le> r" and "r \<le> 1 - 1 / 2 ^ 53"
  shows "1024 \<le> randomInt r \<and> randomInt r \<le> 65535
       \<and> ssrc (initialState now r) = randomInt r
       \<and> ssrc (forAwait cs ended items (initialState now r)) = randomInt r
       \<and> list_all (\<lambda>p. hdr_ssrc (header p) = randomInt r \<and> version (header p) = 2
                      \<and> \<not> padding (header p) \<and> \<not> extension (header p))
           (sent (sendLivekitAudioStreamToCallSession audioStream cs ended now r gc))"
proof -
  have init: "stamped cs (randomInt r) (initialState now r)"
    by (simp add: stamped_def initialState_def)
  have run: "stamped cs (randomInt r) (forAwait cs ce xs (initialState now r))" for ce xs
    using init by (rule forAwait_stamped)
  have packets: "list_all (\<lambda>p. hdr_ssrc (header p) = randomInt r \<and> version (header p) = 2
                      \<and> \<not> padding (header p) \<and> \<not> extension (header p))
           (sent (sendLivekitAudioStreamToCallSession audioStream cs ended now r gc))"
  proof (cases audioStream)
    case None
    then show ?thesis
      by (simp add: sendLivekitAudioStreamToCallSession_def returnedEarly_def)
  next
    case (Some xs)
    show ?thesis
    proof (cases "disposed cs")
      case True
      then show ?thesis using Some
        by (simp add: sendLivekitAudioStreamToCallSession_def returnedEarly_def)
    next
      case False
      have "list_all (\<lambda>p. hdr_ssrc (header p) = randomInt r \<and> version (header p) = 2
                      \<and> \<not> padding (header p) \<and> \<not> extension (header p)
                      \<and> payloadType (header p) = codec_id cs)
           (sent (forAwait cs ended xs (initialState now r)))"
        using run [of ended xs] by (simp add: stamped_def)
      then have "list_all (\<lambda>p. hdr_ssrc (header p) = randomInt r \<and> version (header p) = 2
                      \<and> \<not> padding (header p) \<and> \<not> extension (header p))
           (sent (forAwait cs ended xs (initialState now r)))"
        by (rule list.pred_mono_strong) simp
      then show ?thesis using Some False
        by (simp add: sendLivekitAudioStreamToCallSession_def cleanup_effects)
    qed
  qed
  have "ssrc (forAwait cs ended items (initialState now r)) = randomInt r"
    using run [of ended items] by (simp add: stamped_def)
  moreover have "ssrc (initialState now r) = randomInt r"
    by (simp add: initialState_def)
  moreover note randomInt_range [OF assms] packets
  ultimately show ?thesis by (intro conjI) simp_all
qed

theorem ssrc_fixed_per_invocation_witness:
  "(0::real) \<le> 1 / 2 \<and> (1::real) / 2 \<le> 1 - 1 / 2 ^ 53
   \<and> randomInt (1 / 2) = 33280
   \<and> map (\<lambda>p. hdr_ssrc (header p)) (sent (sendLivekitAudioStreamToCallSession
          (Some [Frame (Some (replicate 640 1)), Frame (Some (replicate 640 2))])
          exampleSession False 0 (1 / 2) None)) = [33280, 33280]"
proof -
  have lo: "(0::real) \<le> 1 / 2" and hi: "(1::real) / 2 \<le> 1 - 1 / 2 ^ 53" by simp_all
  have val: "randomInt (1 / 2) = 33280"
    by (rule randomInt_half)
  have len: "length (sent (sendLivekitAudioStreamToCallSession
          (Some [Frame (Some (replicate 640 1)), Frame (Some (replicate 640 2))])
          exampleSession False 0 (1 / 2) None)) = 2"
    by (simp add: run_simps)
  have "list_all (\<lambda>p. hdr_ssrc (header p) = randomInt (1 / 2) \<and> version (header p) = 2
                      \<and> \<not> padding (header p) \<and> \<not> extension (header p))
           (sent (sendLivekitAudioStreamToCallSession
          (Some [Frame (Some (replicate 640 1)), Frame (Some (replicate 640 2))])
          exampleSession False 0 (1 / 2) None))"
    by (rule ssrc_fixed_per_invocation
        [OF lo hi, THEN conjunct2, THEN conjunct2, THEN conjunct2, THEN conjunct2])
  then have "map (\<lambda>p. hdr_ssrc (header p)) (sent (sendLivekitAudioStreamToCallSession
          (Some [Frame (Some (replicate 640 1)), Frame (Some (replicate 640 2))])
          exampleSession False 0 (1 / 2) None)) = [33280, 33280]"
    using len unfolding val
    by (cases "sent (sendLivekitAudioStreamToCallSession
          (Some [Frame (Some (replicate 640 1)), Frame (Some (replicate 640 2))])
          exampleSession False 0 (1 / 2) None)" rule: list.exhaust)
       (auto simp: length_Suc_conv)
  with lo hi val show ?thesis by (intro conjI)
qed

section \<open>The inbound handler (claims C7, C8 and C10)\<close>

lemma int16_elements_length: "length (int16_elements bs) = length bs div 2"
  by (induction bs rule: int16_elements.induct) simp_all

lemma Uint8Array_new_inside:
  "off + len \<le> length buf \<Longrightarrow> Uint8Array_new buf off len = Inr (take len (drop off buf))"
  by (simp add: Uint8Array_new_def)

lemma Int16Array_new_aligned:
  assumes "even off" and "off + n \<le> length buf"
  shows "Int16Array_new buf off (n div 2)
           = Inr (int16_elements (take (n div 2 * 2) (drop off buf)))"
proof -
  have "n div 2 * 2 \<le> n" by simp
  then have "off + n div 2 * 2 \<le> length buf" using assms(2) by linarith
  then show ?thesis using assms(1) by (simp add: Int16Array_new_def)
qed

lemma Int16Array_new_misaligned:
  "odd off \<Longrightarrow> Int16Array_new buf off len = Inl RangeError"
  by (simp add: Int16Array_new_def odd_iff_mod_2_eq_one)

lemma Int16Array_new_length:
  "Int16Array_new buf off len = Inr samples \<Longrightarrow> length samples = len"
  by (auto simp: Int16Array_new_def int16_elements_length split: if_splits)

text \<open>
  Claim C7. Take an inbound packet whose payload the decoder turns into PCM of even byte
  length. The handler hands the audio source at most one frame for it, and that frame has
  as many samples as the PCM has bytes divided by 2, the sample rate 16000 and 1 channel.
  The frame is there when the PCM view starts at an even byte offset (else the
  \<^verbatim>\<open>Int16Array\<close> constructor throws) and \<^verbatim>\<open>captureFrame\<close> takes it.
\<close>

theorem inbound_frame_sample_count:
  assumes view: "byteOffset rtpPayload + byteLength rtpPayload \<le> length (buffer rtpPayload)"
    and decoded: "decode cs (decoderInputs st)
        (take (byteLength rtpPayload) (drop (byteOffset rtpPayload) (buffer rtpPayload)))
        = Some pcm"
    and valid: "even (byteLength pcm)"
    and pcm_view: "byteOffset pcm + byteLength pcm \<le> length (buffer pcm)"
  shows "captured (onAudioPacket (newConnector url) cs captureFrame rtpPayload st)
           = captured st @
             (if even (byteOffset pcm)
                 \<and> captureFrame (offered st) (AudioFrame
                      (int16_elements (take (byteLength pcm) (drop (byteOffset pcm) (buffer pcm))))
                      16000 1 (byteLength pcm div 2)) = Captured
              then [AudioFrame
                      (int16_elements (take (byteLength pcm) (drop (byteOffset pcm) (buffer pcm))))
                      16000 1 (byteLength pcm div 2)]
              else [])
       \<and> length (int16_elements (take (byteLength pcm) (drop (byteOffset pcm) (buffer pcm))))
           = byteLength pcm div 2"
proof -
  let ?bytes = "take (byteLength rtpPayload) (drop (byteOffset rtpPayload) (buffer rtpPayload))"
  let ?samples = "int16_elements (take (byteLength pcm) (drop (byteOffset pcm) (buffer pcm)))"
  have bytes: "Uint8Array_new (buffer rtpPayload) (byteOffset rtpPayload) (byteLength rtpPayload)
      = Inr ?bytes"
    using view by (rule Uint8Array_new_inside)
  have whole: "byteLength pcm div 2 * 2 = byteLength pcm"
    using valid by simp
  have count: "length ?samples = byteLength pcm div 2"
    using pcm_view by (simp add: int16_elements_length)
  show ?thesis
  proof (cases "even (byteOffset pcm)")
    case True
    have "Int16Array_new (buffer pcm) (byteOffset pcm) (byteLength pcm div 2) = Inr ?samples"
      using Int16Array_new_aligned [OF True pcm_view] unfolding whole .
    then have "decodeToFrame (newConnector url) cs (decoderInputs st) ?bytes
        = Inr (AudioFrame ?samples 16000 1 (byteLength pcm div 2))"
      using decoded count by (simp add: decodeToFrame_def newConnector_def)
    then show ?thesis
      using True bytes count
      by (simp add: onAudioPacket_def Let_def split: CaptureOutcome.splits)
  next
    case False
    have "Int16Array_new (buffer pcm) (byteOffset pcm) (byteLength pcm div 2) = Inl RangeError"
      using False by (rule Int16Array_new_misaligned)
    then have "decodeToFrame (newConnector url) cs (decoderInputs st) ?bytes = Inl RangeError"
      using decoded by (simp add: decodeToFrame_def)
    then show ?thesis
      using False bytes count by (simp add: onAudioPacket_def Let_def)
  qed
qed

theorem inbound_frame_sample_count_witness:
  "byteOffset \<lparr> buffer = [1, 2, 3, 4], byteOffset = 1, byteLength = 2 \<rparr>
       + byteLength \<lparr> buffer = [1, 2, 3, 4], byteOffset = 1, byteLength = 2 \<rparr>
     \<le> length (buffer \<lparr> buffer = [1, 2, 3, 4], byteOffset = 1, byteLength = 2 \<rparr>)
   \<and> decode exampleSession [] [2, 3]
       = Some \<lparr> buffer = [2, 3, 2, 3], byteOffset = 0, byteLength = 4 \<rparr>
   \<and> captured (onAudioPacket (newConnector []) exampleSession (\<lambda>history frame. Captured)
         \<lparr> buffer = [1, 2, 3, 4], byteOffset = 1, byteLength = 2 \<rparr>
         \<lparr> decoderInputs = [], offered = [], captured = [], unhandledRejections = [],
           errors = [] \<rparr>)
       = [AudioFrame [770, 770] 16000 1 2]"
proof -
  let ?p = "\<lparr> buffer = [1, 2, 3, 4], byteOffset = 1, byteLength = 2 \<rparr> :: ArrayView"
  let ?pcm = "\<lparr> buffer = [2, 3, 2, 3], byteOffset = 0, byteLength = 4 \<rparr> :: ArrayView"
  let ?st = "\<lparr> decoderInputs = [], offered = [], captured = [], unhandledRejections = [],
      errors = [] \<rparr>"
  have view: "byteOffset ?p + byteLength ?p \<le> length (buffer ?p)" by simp
  have dec: "decode exampleSession [] [2, 3] = Some ?pcm"
    by (simp add: exampleSession_def)
  have decoded: "decode exampleSession (decoderInputs ?st)
      (take (byteLength ?p) (drop (byteOffset ?p) (buffer ?p))) = Some ?pcm"
    using dec by simp
  have valid: "even (byteLength ?pcm)" by simp
  have pcm_view: "byteOffset ?pcm + byteLength ?pcm \<le> length (buffer ?pcm)" by simp
  have "captured (onAudioPacket (newConnector []) exampleSession (\<lambda>history frame. Captured)
        ?p ?st)
      = [AudioFrame [770, 770] 16000 1 2]"
    using inbound_frame_sample_count [OF view decoded valid pcm_view, of "[]"
        "\<lambda>history frame. Captured"]
    by simp
  with view dec show ?thesis by (intro conjI)
qed

text \<open>
  A throw inside the \<^verbatim>\<open>try\<close> is contained: when the decoder throws on a packet, or
  \<^verbatim>\<open>captureFrame\<close> throws before it returns, one line is logged, no frame is published
  for the packet, and the handler goes on with the packets that follow.
\<close>

lemma thrown_error_is_contained:
  assumes view: "byteOffset p + byteLength p \<le> length (buffer p)"
    and fails: "decode cs (decoderInputs st)
          (take (byteLength p) (drop (byteOffset p) (buffer p))) = None"
  shows "onAudioPacket this cs captureFrame p st
           = st\<lparr> decoderInputs :=
                    decoderInputs st @ [take (byteLength p) (drop (byteOffset p) (buffer p))],
                  errors := errors st @ [FailedToCaptureFrame] \<rparr>"
    and "onAudioPackets this cs captureFrame (p # rest) st
           = onAudioPackets this cs captureFrame rest
               (st\<lparr> decoderInputs :=
                    decoderInputs st @ [take (byteLength p) (drop (byteOffset p) (buffer p))],
                  errors := errors st @ [FailedToCaptureFrame] \<rparr>)"
proof -
  let ?bytes = "take (byteLength p) (drop (byteOffset p) (buffer p))"
  have bytes: "Uint8Array_new (buffer p) (byteOffset p) (byteLength p) = Inr ?bytes"
    using view by (rule Uint8Array_new_inside)
  have "decodeToFrame this cs (decoderInputs st) ?bytes = Inl DecoderThrew"
    using fails by (simp add: decodeToFrame_def)
  then show caught: "onAudioPacket this cs captureFrame p st
           = st\<lparr> decoderInputs := decoderInputs st @ [?bytes],
                  errors := errors st @ [FailedToCaptureFrame] \<rparr>"
    using bytes by (simp add: onAudioPacket_def Let_def)
  show "onAudioPackets this cs captureFrame (p # rest) st
           = onAudioPackets this cs captureFrame rest
               (st\<lparr> decoderInputs := decoderInputs st @ [?bytes],
                  errors := errors st @ [FailedToCaptureFrame] \<rparr>)"
    by (simp add: caught)
qed

lemma capture_outcomes:
  assumes view: "byteOffset p + byteLength p \<le> length (buffer p)"
    and frame: "decodeToFrame this cs (decoderInputs st)
          (take (byteLength p) (drop (byteOffset p) (buffer p))) = Inr frame"
  shows "onAudioPacket this cs captureFrame p st
           = (case captureFrame (offered st) frame of
                Captured \<Rightarrow>
                  st\<lparr> decoderInputs := decoderInputs st
                          @ [take (byteLength p) (drop (byteOffset p) (buffer p))],
                      offered := offered st @ [frame],
                      captured := captured st @ [frame] \<rparr>
              | Rejected \<Rightarrow>
                  st\<lparr> decoderInputs := decoderInputs st
                          @ [take (byteLength p) (drop (byteOffset p) (buffer p))],
                      offered := offered st @ [frame],
                      unhandledRejections := unhandledRejections st @ [frame] \<rparr>
              | Threw \<Rightarrow>
                  st\<lparr> decoderInputs := decoderInputs st
                          @ [take (byteLength p) (drop (byteOffset p) (buffer p))],
                      offered := offered st @ [frame],
                      errors := errors st @ [FailedToCaptureFrame] \<rparr>)"
proof -
  have "Uint8Array_new (buffer p) (byteOffset p) (byteLength p)
      = Inr (take (byteLength p) (drop (byteOffset p) (buffer p)))"
    using view by (rule Uint8Array_new_inside)
  then show ?thesis
    using frame by (simp add: onAudioPacket_def Let_def split: CaptureOutcome.splits)
qed

text \<open>
  Claim C8. The claim holds for what is thrown inside the \<^verbatim>\<open>try\<close>, but a capture that
  fails does not throw there: \<^verbatim>\<open>captureFrame\<close> is called without \<^verbatim>\<open>await\<close>, and its
  failure is the rejection of the promise it returned. On a packet that decodes to two
  samples while the audio source rejects the frame, the \<^verbatim>\<open>catch\<close> is not reached: nothing
  is logged, nothing is published, and the rejection is left unhandled.
\<close>

theorem capture_rejection_escapes_the_catch:
  "decodeToFrame (newConnector []) exampleSession [] [2, 3]
     = Inr (AudioFrame [770, 770] 16000 1 2)
   \<and> onAudioPacket (newConnector []) exampleSession (\<lambda>history frame. Rejected)
        \<lparr> buffer = [1, 2, 3, 4], byteOffset = 1, byteLength = 2 \<rparr>
        \<lparr> decoderInputs = [], offered = [], captured = [], unhandledRejections = [],
          errors = [] \<rparr>
       = \<lparr> decoderInputs = [[2, 3]], offered = [AudioFrame [770, 770] 16000 1 2],
           captured = [], unhandledRejections = [AudioFrame [770, 770] 16000 1 2],
           errors = [] \<rparr>"
  by (simp add: onAudioPacket_def decodeToFrame_def exampleSession_def Int16Array_new_def
      newConnector_def Uint8Array_new_def Let_def)

text \<open>
  Claim C10, as the code has it. For a packet whose decoded PCM has an odd byte length
  (its view starting at an even offset), the \<^verbatim>\<open>Int16Array\<close> construction does not fail:
  \<^verbatim>\<open>byteLength / 2\<close> has a fraction, which the constructor drops, so the array covers
  the first \<open>byteLength - 1\<close> bytes and the last byte is ignored. The frame of
  \<open>(byteLength - 1) / 2\<close> samples is handed to \<^verbatim>\<open>captureFrame\<close> and published when the
  source takes it, with no error logged; the packets that follow are handled as usual.
\<close>

theorem odd_pcm_length_is_truncated:
  assumes view: "byteOffset p + byteLength p \<le> length (buffer p)"
    and decoded: "decode cs (decoderInputs st)
        (take (byteLength p) (drop (byteOffset p) (buffer p))) = Some pcm"
    and odd_length: "odd (byteLength pcm)"
    and aligned: "even (byteOffset pcm)"
    and pcm_view: "byteOffset pcm + byteLength pcm \<le> length (buffer pcm)"
  shows "Int16Array_new (buffer pcm) (byteOffset pcm) (byteLength pcm div 2)
           = Inr (int16_elements (take (byteLength pcm - 1) (drop (byteOffset pcm) (buffer pcm))))
       \<and> length (int16_elements (take (byteLength pcm - 1) (drop (byteOffset pcm) (buffer pcm))))
           = (byteLength pcm - 1) div 2
       \<and> onAudioPacket (newConnector url) cs captureFrame p st
           = (case captureFrame (offered st) (AudioFrame
                   (int16_elements (take (byteLength pcm - 1) (drop (byteOffset pcm) (buffer pcm))))
                   16000 1 ((byteLength pcm - 1) div 2)) of
                Captured \<Rightarrow>
                  st\<lparr> decoderInputs := decoderInputs st
                          @ [take (byteLength p) (drop (byteOffset p) (buffer p))],
                      offered := offered st @ [AudioFrame
                   (int16_elements (take (byteLength pcm - 1) (drop (byteOffset pcm) (buffer pcm))))
                   16000 1 ((byteLength pcm - 1) div 2)],
                      captured := captured st @ [AudioFrame
                   (int16_elements (take (byteLength pcm - 1) (drop (byteOffset pcm) (buffer pcm))))
                   16000 1 ((byteLength pcm - 1) div 2)] \<rparr>
              | Rejected \<Rightarrow>
                  st\<lparr> decoderInputs := decoderInputs st
                          @ [take (byteLength p) (drop (byteOffset p) (buffer p))],
                      offered := offered st @ [AudioFrame
                   (int16_elements (take (byteLength pcm - 1) (drop (byteOffset pcm) (buffer pcm))))
                   16000 1 ((byteLength pcm - 1) div 2)],
                      unhandledRejections := unhandledRejections st @ [AudioFrame
                   (int16_elements (take (byteLength pcm - 1) (drop (byteOffset pcm) (buffer pcm))))
                   16000 1 ((byteLength pcm - 1) div 2)] \<rparr>
              | Threw \<Rightarrow>
                  st\<lparr> decoderInputs := decoderInputs st
                          @ [take (byteLength p) (drop (byteOffset p) (buffer p))],
                      offered := offered st @ [AudioFrame
                   (int16_elements (take (byteLength pcm - 1) (drop (byteOffset pcm) (buffer pcm))))
                   16000 1 ((byteLength pcm - 1) div 2)],
                      errors := errors st @ [FailedToCaptureFrame] \<rparr>)
       \<and> onAudioPackets (newConnector url) cs captureFrame (p # rest) st
           = onAudioPackets (newConnector url) cs captureFrame rest
               (onAudioPacket (newConnector url) cs captureFrame p st)"
proof -
  let ?bytes = "take (byteLength p) (drop (byteOffset p) (buffer p))"
  let ?samples = "int16_elements (take (byteLength pcm - 1) (drop (byteOffset pcm) (buffer pcm)))"
  have halves: "byteLength pcm div 2 * 2 = byteLength pcm - 1"
    and half: "(byteLength pcm - 1) div 2 = byteLength pcm div 2"
    using odd_length by (auto elim: oddE)
  have built: "Int16Array_new (buffer pcm) (byteOffset pcm) (byteLength pcm div 2) = Inr ?samples"
    using Int16Array_new_aligned [OF aligned pcm_view] unfolding halves .
  have count: "length ?samples = (byteLength pcm - 1) div 2"
    using pcm_view by (simp add: int16_elements_length)
  have frame: "decodeToFrame (newConnector url) cs (decoderInputs st) ?bytes
      = Inr (AudioFrame ?samples 16000 1 ((byteLength pcm - 1) div 2))"
    using decoded built count by (simp add: decodeToFrame_def newConnector_def)
  note handled = capture_outcomes [OF view frame, of captureFrame]
  have later: "onAudioPackets (newConnector url) cs captureFrame (p # rest) st
           = onAudioPackets (newConnector url) cs captureFrame rest
               (onAudioPacket (newConnector url) cs captureFrame p st)"
    by simp
  from built count handled later show ?thesis by (intro conjI)
qed

theorem odd_pcm_length_is_truncated_witness:
  "decode (exampleSession\<lparr> decode := \<lambda>history bytes.
              Some \<lparr> buffer = bytes, byteOffset = 0, byteLength = length bytes \<rparr> \<rparr>) [] [1, 2, 3]
       = Some \<lparr> buffer = [1, 2, 3], byteOffset = 0, byteLength = 3 \<rparr>
   \<and> odd (byteLength \<lparr> buffer = [1, 2, 3], byteOffset = 0, byteLength = 3 \<rparr>)
   \<and> onAudioPacket (newConnector [])
         (exampleSession\<lparr> decode := \<lambda>history bytes.
              Some \<lparr> buffer = bytes, byteOffset = 0, byteLength = length bytes \<rparr> \<rparr>)
         (\<lambda>history frame. Captured)
         \<lparr> buffer = [1, 2, 3], byteOffset = 0, byteLength = 3 \<rparr>
         \<lparr> decoderInputs = [], offered = [], captured = [], unhandledRejections = [],
           errors = [] \<rparr>
       = \<lparr> decoderInputs = [[1, 2, 3]], offered = [AudioFrame [513] 16000 1 1],
           captured = [AudioFrame [513] 16000 1 1], unhandledRejections = [], errors = [] \<rparr>"
proof -
  let ?cs = "exampleSession\<lparr> decode := \<lambda>history bytes.
              Some \<lparr> buffer = bytes, byteOffset = 0, byteLength = length bytes \<rparr> \<rparr>"
  let ?p = "\<lparr> buffer = [1, 2, 3], byteOffset = 0, byteLength = 3 \<rparr> :: ArrayView"
  let ?st = "\<lparr> decoderInputs = [], offered = [], captured = [], unhandledRejections = [],
      errors = [] \<rparr>"
  have view: "byteOffset ?p + byteLength ?p \<le> length (buffer ?p)" by simp
  have dec: "decode ?cs [] [1, 2, 3] = Some ?p" by simp
  have decoded: "decode ?cs (decoderInputs ?st)
      (take (byteLength ?p) (drop (byteOffset ?p) (buffer ?p))) = Some ?p"
    by simp
  have odd_length: "odd (byteLength ?p)" by simp
  have aligned: "even (byteOffset ?p)" by simp
  have "onAudioPacket (newConnector []) ?cs (\<lambda>history frame. Captured) ?p ?st
      = \<lparr> decoderInputs = [[1, 2, 3]], offered = [AudioFrame [513] 16000 1 1],
           captured = [AudioFrame [513] 16000 1 1], unhandledRejections = [], errors = [] \<rparr>"
    using odd_pcm_length_is_truncated [OF view decoded odd_length aligned view,
        of "[]" "\<lambda>history frame. Captured", THEN conjunct2, THEN conjunct2, THEN conjunct1]
    by simp
  with dec odd_length show ?thesis by (intro conjI)
qed

text \<open>
  On a decoder that returns three bytes of PCM, the construction yields one sample, a
  frame is published and nothing is logged.
\<close>

theorem odd_pcm_length_counterexample:
  "odd (byteLength \<lparr> buffer = [1, 2, 3], byteOffset = 0, byteLength = 3 \<rparr>)
   \<and> decode (exampleSession\<lparr> decode := \<lambda>history bytes.
              Some \<lparr> buffer = bytes, byteOffset = 0, byteLength = length bytes \<rparr> \<rparr>) [] [1, 2, 3]
       = Some \<lparr> buffer = [1, 2, 3], byteOffset = 0, byteLength = 3 \<rparr>
   \<and> Int16Array_new [1, 2, 3] 0 (3 div 2) = Inr [513]
   \<and> captured (onAudioPacket (newConnector [])
         (exampleSession\<lparr> decode := \<lambda>history bytes.
              Some \<lparr> buffer = bytes, byteOffset = 0, byteLength = length bytes \<rparr> \<rparr>)
         (\<lambda>history frame. Captured)
         \<lparr> buffer = [1, 2, 3], byteOffset = 0, byteLength = 3 \<rparr>
         \<lparr> decoderInputs = [], offered = [], captured = [], unhandledRejections = [],
           errors = [] \<rparr>) \<noteq> []
   \<and> errors (onAudioPacket (newConnector [])
         (exampleSession\<lparr> decode := \<lambda>history bytes.
              Some \<lparr> buffer = bytes, byteOffset = 0, byteLength = length bytes \<rparr> \<rparr>)
         (\<lambda>history frame. Captured)
         \<lparr> buffer = [1, 2, 3], byteOffset = 0, byteLength = 3 \<rparr>
         \<lparr> decoderInputs = [], offered = [], captured = [], unhandledRejections = [],
           errors = [] \<rparr>) = []"
  by (simp add: onAudioPacket_def decodeToFrame_def Int16Array_new_def Uint8Array_new_def
      newConnector_def Let_def)

section \<open>The call-ended flag (claim C1)\<close>

text \<open>The rewrite rules that run the handlers of the scope on concrete events.\<close>

lemmas scope_simps = inviteUserToRoom_def onCallEvent_def onTrackSubscribed_def onRoomAudio_def
  forwardsTrack_def

text \<open>
  A pipeline that starts after the call has ended sends nothing: the loop stops at its
  first frame, and a disposed session makes the function return at once.
\<close>

lemma ended_at_start_sends_nothing:
  "sent (sendLivekitAudioStreamToCallSession audioStream cs True now r gc) = []"
proof (cases audioStream)
  case None
  then show ?thesis by (simp add: sendLivekitAudioStreamToCallSession_def returnedEarly_def)
next
  case (Some items)
  have "sent (forAwait cs True items (initialState now r)) = []"
    by (cases items rule: list.exhaust; cases "hd items")
       (auto simp: initialState_def split: StreamItem.splits)
  then show ?thesis using Some
    by (simp add: sendLivekitAudioStreamToCallSession_def returnedEarly_def cleanup_effects)
qed

lemma disposed_at_start_sends_nothing:
  "disposed cs \<Longrightarrow>
   sent (sendLivekitAudioStreamToCallSession audioStream cs ended now r gc) = []"
  by (cases audioStream)
     (simp_all add: sendLivekitAudioStreamToCallSession_def returnedEarly_def)

text \<open>
  Claim C1. The flag the loops read is the parameter \<^verbatim>\<open>callEnded\<close>, which line 81
  fills with a copy of the variable's value at subscription time, and the session's
  \<^verbatim>\<open>disposed\<close> is read once at entry. A track is subscribed while the call is live,
  one frame of 640 bytes is sent as one packet, then the call is disposed: the variable
  \<open>callEnded\<close> and the session's flag are both true. The next frame of 640 bytes is
  still encoded and handed to \<^verbatim>\<open>sendPacket\<close>: the pipeline has sent two packets.
\<close>

theorem packets_sent_after_callEnded_is_set:
  "callEnded (handleEvents None None
      [TrackSubscribed KIND_AUDIO ''guest'' 0 0,
       RoomAudio 0 (Frame (Some (replicate 640 1))),
       CallEvent DISPOSED]
      (inviteUserToRoom exampleSession))
   \<and> disposed (callSession (handleEvents None None
      [TrackSubscribed KIND_AUDIO ''guest'' 0 0,
       RoomAudio 0 (Frame (Some (replicate 640 1))),
       CallEvent DISPOSED]
      (inviteUserToRoom exampleSession)))
   \<and> map (\<lambda>pl. length (sent (pipelineState pl))) (pipelines (handleEvents None None
      [TrackSubscribed KIND_AUDIO ''guest'' 0 0,
       RoomAudio 0 (Frame (Some (replicate 640 1))),
       CallEvent DISPOSED]
      (inviteUserToRoom exampleSession))) = [1]
   \<and> map (\<lambda>pl. length (sent (pipelineState pl))) (pipelines (handleEvents None None
      [TrackSubscribed KIND_AUDIO ''guest'' 0 0,
       RoomAudio 0 (Frame (Some (replicate 640 1))),
       CallEvent DISPOSED,
       RoomAudio 0 (Frame (Some (replicate 640 2)))]
      (inviteUserToRoom exampleSession))) = [2]"
  by (simp add: scope_simps run_simps)

section \<open>The overflow guard (claim C2)\<close>

text \<open>
  Claim C2. The guard of line 155 compares \<^verbatim>\<open>pcmBuffer.length + chunkSize\<close> with 3200:
  it leaves out the bytes waiting in the pending list, and after a trip the chunk is
  appended all the same. With 600 bytes pending, a chunk of 2700 bytes trips nothing and
  the merge makes an accumulation buffer of 3300 bytes; a single chunk of 3201 bytes
  trips the guard and then stands in the buffer whole. Both are above the ceiling of
  3200 bytes.
\<close>

theorem overflow_guard_misses_the_ceiling:
  "tempBuffer (onAudioFrame exampleSession False (replicate 600 1) (initialState 0 0))
     = [replicate 600 1]
   \<and> pcmBuffer (onAudioFrame exampleSession False (replicate 600 1) (initialState 0 0)) = []
   \<and> length (pcmBuffer (accumulate (replicate 2700 2)
         (onAudioFrame exampleSession False (replicate 600 1) (initialState 0 0)))) = 3300
   \<and> console (accumulate (replicate 2700 2)
         (onAudioFrame exampleSession False (replicate 600 1) (initialState 0 0))) = []
   \<and> console (accumulate (replicate 3201 3) (initialState 0 0)) = [BufferOverflowProtection 0]
   \<and> length (pcmBuffer (accumulate (replicate 3201 3) (initialState 0 0))) = 3201
   \<and> MAX_BUFFER_SIZE = 3200"
  by (simp add: run_simps)

end
